theory Spec2Isabelle
  imports
    Main
    "HOL-Library.Char_ord"
    "HOL-Library.List_Lexorder"
    "HOL-Library.Multiset"
    "HOL-Library.Sublist"
begin

chapter \<open>Logo discovery and deduplication: the clustering engine and the candidate scorer\<close>

section \<open>Results of calls that may raise or fail to return\<close>

text \<open>
  A Python call either returns a value, raises, or (for a recursion that never reaches
  its base case) does not return. \<open>Some (Inr v)\<close> is a returned value, \<open>Some (Inl e)\<close>
  a raised exception, \<open>None\<close> a call that does not return.
\<close>

datatype error = KeyError

type_synonym 'a result = "(error + 'a) option"

definition ok :: "'a \<Rightarrow> 'a result" where
  "ok v = Some (Inr v)"

definition raise :: "error \<Rightarrow> 'a result" where
  "raise e = Some (Inl e)"

definition bind_result :: "'a result \<Rightarrow> ('a \<Rightarrow> 'b result) \<Rightarrow> 'b result" where
  "bind_result m f =
     (case m of None \<Rightarrow> None | Some (Inl e) \<Rightarrow> Some (Inl e) | Some (Inr v) \<Rightarrow> f v)"

section \<open>Clustering engine (4-cluster-logos.py)\<close>

subsection \<open>Union-find over two dictionaries\<close>

type_synonym parent_map = "string \<rightharpoonup> string"
type_synonym rank_map = "string \<rightharpoonup> int"

definition HASH_THRESHOLD :: int where
  "HASH_THRESHOLD = 8"

text \<open>
  \<open>find_cluster\<close> follows parent links up to the root and, on the way back, rewrites
  \<open>parent[x]\<close> to the root (path compression). The dictionary is mutated in place in the
  source; here the updated dictionary is returned with the root. \<open>parent[x]\<close> on a key
  that is absent raises \<open>KeyError\<close>.
\<close>

partial_function (option) find_cluster ::
  "parent_map \<Rightarrow> string \<Rightarrow> (error + parent_map \<times> string) option" where
  "find_cluster parent x =
     (case parent x of
        None \<Rightarrow> Some (Inl KeyError)
      | Some px \<Rightarrow>
          if px \<noteq> x then
            Option.bind (find_cluster parent px) (\<lambda>res.
              case res of
                Inl e \<Rightarrow> Some (Inl e)
              | Inr (parent', r) \<Rightarrow> Some (Inr (parent'(x \<mapsto> r), r)))
          else Some (Inr (parent, px)))"

declare find_cluster.simps [code]

definition union_clusters ::
  "parent_map \<times> rank_map \<Rightarrow> string \<Rightarrow> string \<Rightarrow> (parent_map \<times> rank_map) result" where
  "union_clusters st x y =
     (case st of (parent, rank) \<Rightarrow>
        bind_result (find_cluster parent x) (\<lambda>(parent1, root_x).
        bind_result (find_cluster parent1 y) (\<lambda>(parent2, root_y).
          if root_x \<noteq> root_y then
            (case rank root_x of
               None \<Rightarrow> raise KeyError
             | Some rx \<Rightarrow>
                 (case rank root_y of
                    None \<Rightarrow> raise KeyError
                  | Some ry \<Rightarrow>
                      if rx < ry then ok (parent2(root_x \<mapsto> root_y), rank)
                      else if rx > ry then ok (parent2(root_y \<mapsto> root_x), rank)
                      else ok (parent2(root_y \<mapsto> root_x), rank(root_x \<mapsto> rx + 1))))
          else ok (parent2, rank))))"

subsection \<open>The pairwise comparison loop (main, lines 52-60)\<close>

text \<open>
  The hash dictionary is an association list with distinct keys, in insertion order
  (\<open>hashes.keys()\<close> is \<open>map fst\<close>). The hash values and their subtraction
  \<open>hashes[d1] - hashes[d2]\<close> come from the imagehash library; the distance is the
  parameter \<open>dist\<close>.
\<close>

type_synonym 'h hash_dict = "(string \<times> 'h) list"

fun compare_with ::
  "('h \<Rightarrow> 'h \<Rightarrow> int) \<Rightarrow> 'h hash_dict \<Rightarrow> string \<Rightarrow> string list \<Rightarrow>
   parent_map \<times> rank_map \<Rightarrow> (parent_map \<times> rank_map) result" where
  "compare_with dist hashes d1 [] st = ok st"
| "compare_with dist hashes d1 (d2 # ds) st =
     (case map_of hashes d1 of
        None \<Rightarrow> raise KeyError
      | Some h1 \<Rightarrow>
          (case map_of hashes d2 of
             None \<Rightarrow> raise KeyError
           | Some h2 \<Rightarrow>
               if dist h1 h2 \<le> HASH_THRESHOLD then
                 bind_result (union_clusters st d1 d2) (compare_with dist hashes d1 ds)
               else compare_with dist hashes d1 ds st))"

fun compare_all ::
  "('h \<Rightarrow> 'h \<Rightarrow> int) \<Rightarrow> 'h hash_dict \<Rightarrow> string list \<Rightarrow>
   parent_map \<times> rank_map \<Rightarrow> (parent_map \<times> rank_map) result" where
  "compare_all dist hashes [] st = ok st"
| "compare_all dist hashes (d1 # ds) st =
     bind_result (compare_with dist hashes d1 ds st) (compare_all dist hashes ds)"

subsection \<open>Grouping by root (main, lines 62-68)\<close>

text \<open>
  \<open>clusters\<close> is a \<open>defaultdict(list)\<close>: appending under a new key adds the key at the
  end of the dictionary, appending under an old key extends its list in place.
\<close>

type_synonym cluster_dict = "(string \<times> string list) list"

fun dict_append :: "cluster_dict \<Rightarrow> string \<Rightarrow> string \<Rightarrow> cluster_dict" where
  "dict_append [] k v = [(k, [v])]"
| "dict_append ((k', vs) # rest) k v =
     (if k' = k then (k', vs @ [v]) # rest else (k', vs) # dict_append rest k v)"

fun group_by_root ::
  "parent_map \<Rightarrow> string list \<Rightarrow> cluster_dict \<Rightarrow> (parent_map \<times> cluster_dict) result" where
  "group_by_root parent [] clusters = ok (parent, clusters)"
| "group_by_root parent (d # ds) clusters =
     bind_result (find_cluster parent d) (\<lambda>(parent', root).
       group_by_root parent' ds (dict_append clusters root d))"

definition multi_of :: "cluster_dict \<Rightarrow> cluster_dict" where
  "multi_of clusters = filter (\<lambda>(k, v). length v > 1) clusters"

definition singletons_of :: "cluster_dict \<Rightarrow> string list" where
  "singletons_of clusters = map fst (filter (\<lambda>(k, v). length v = 1) clusters)"

definition cluster_partition ::
  "('h \<Rightarrow> 'h \<Rightarrow> int) \<Rightarrow> 'h hash_dict \<Rightarrow> (cluster_dict \<times> string list) result" where
  "cluster_partition dist hashes =
     (let domains = map fst hashes;
          parent = map_of (map (\<lambda>d. (d, d)) domains);
          rank = map_of (map (\<lambda>d. (d, 0)) domains)
      in bind_result (compare_all dist hashes domains (parent, rank)) (\<lambda>(parent1, rank1).
         bind_result (group_by_root parent1 domains []) (\<lambda>(parent2, clusters).
           ok (multi_of clusters, singletons_of clusters))))"

subsection \<open>The report (main, lines 73-90)\<close>

definition digit_char :: "nat \<Rightarrow> char" where
  "digit_char n = char_of (48 + n)"

function str_nat :: "nat \<Rightarrow> string" where
  "str_nat n = (if n < 10 then [digit_char n] else str_nat (n div 10) @ [digit_char (n mod 10)])"
  by pat_completeness auto
termination
  by (relation "measure id") auto

definition newline :: string where
  "newline = [CHR 0x0A]"

definition domain_line :: "string \<Rightarrow> string" where
  "domain_line d = ''  '' @ d @ newline"

definition sorted_clusters :: "cluster_dict \<Rightarrow> cluster_dict" where
  "sorted_clusters multi_clusters = sort_key (\<lambda>(root, members). - int (length members)) multi_clusters"

definition cluster_section :: "nat \<times> string \<times> string list \<Rightarrow> string" where
  "cluster_section e =
     (case e of (i, root, members) \<Rightarrow>
        ''=== Cluster '' @ str_nat i @ '' ('' @ str_nat (length members) @ '' logos) ==='' @ newline
        @ concat (map domain_line (sort members))
        @ newline)"

definition report :: "nat \<Rightarrow> cluster_dict \<times> string list \<Rightarrow> string" where
  "report n_logos out =
     (case out of (multi_clusters, singletons) \<Rightarrow>
        ''# Logo Clustering Report (Perceptual Hash)'' @ newline
        @ ''# Threshold: Hamming distance <= '' @ str_nat (nat HASH_THRESHOLD) @ newline
        @ ''# Total logos: '' @ str_nat n_logos @ newline
        @ ''# Clusters (2+ logos): '' @ str_nat (length multi_clusters) @ newline
        @ ''# Singletons: '' @ str_nat (length singletons) @ newline @ newline
        @ concat (map cluster_section
            (zip [1 ..< Suc (length multi_clusters)] (sorted_clusters multi_clusters)))
        @ ''=== Singletons ==='' @ newline
        @ concat (map domain_line (sort singletons)))"

definition cluster_logos_main :: "('h \<Rightarrow> 'h \<Rightarrow> int) \<Rightarrow> 'h hash_dict \<Rightarrow> string result" where
  "cluster_logos_main dist hashes =
     bind_result (cluster_partition dist hashes) (\<lambda>out. ok (report (length hashes) out))"

subsection \<open>Specification vocabulary for the clustering engine\<close>

text \<open>
  \<open>root_of p x r\<close>: following parent links from \<open>x\<close> in the dictionary \<open>p\<close> ends at the
  self-parented key \<open>r\<close>. The relation is used to state what \<open>find_cluster\<close> returns; it
  is not part of the program.
\<close>

inductive root_of :: "parent_map \<Rightarrow> string \<Rightarrow> string \<Rightarrow> bool" for p :: parent_map where
  root: "p x = Some x \<Longrightarrow> root_of p x x"
| link: "p x = Some y \<Longrightarrow> y \<noteq> x \<Longrightarrow> root_of p y r \<Longrightarrow> root_of p x r"

text \<open>Two parent dictionaries with the same keys and the same roots.\<close>

definition same_roots :: "parent_map \<Rightarrow> parent_map \<Rightarrow> bool" where
  "same_roots p' p \<longleftrightarrow> dom p' = dom p \<and> (\<forall>a s. root_of p' a s \<longleftrightarrow> root_of p a s)"

text \<open>The equivalence a parent dictionary stands for, and the invariant of the loops.\<close>

definition uf_rel :: "parent_map \<Rightarrow> (string \<times> string) set" where
  "uf_rel p = {(x, y). \<exists>r. root_of p x r \<and> root_of p y r}"

definition uf_inv :: "string set \<Rightarrow> parent_map \<times> rank_map \<Rightarrow> bool" where
  "uf_inv D st \<longleftrightarrow> dom (fst st) = D \<and> D \<subseteq> dom (snd st) \<and> (\<forall>x\<in>D. \<exists>r. root_of (fst st) x r)"

text \<open>Merging the classes of \<open>a\<close> and \<open>b\<close> in an equivalence \<open>R\<close>.\<close>

definition merge_classes :: "('a \<times> 'a) set \<Rightarrow> 'a \<Rightarrow> 'a \<Rightarrow> ('a \<times> 'a) set" where
  "merge_classes R a b =
     {(x, y). (x, y) \<in> R \<or> (x, a) \<in> R \<and> (b, y) \<in> R \<or> (x, b) \<in> R \<and> (a, y) \<in> R}"

text \<open>Connectivity inside \<open>D\<close> along the edges \<open>E\<close>, taken in both directions.\<close>

definition conn :: "'a set \<Rightarrow> ('a \<times> 'a) set \<Rightarrow> ('a \<times> 'a) set" where
  "conn D E = (E \<union> E\<inverse>)\<^sup>* \<inter> D \<times> D"

text \<open>
  The pairs of domains whose hashes are within the threshold, and the pairs \<open>(d1, d2)\<close>
  the double loop visits (\<open>d2\<close> after \<open>d1\<close> in the key order).
\<close>

definition similar :: "('h \<Rightarrow> 'h \<Rightarrow> int) \<Rightarrow> 'h hash_dict \<Rightarrow> (string \<times> string) set" where
  "similar dist hashes =
     {(a, b). \<exists>ha hb. map_of hashes a = Some ha \<and> map_of hashes b = Some hb
                \<and> dist ha hb \<le> HASH_THRESHOLD}"

fun later_pairs :: "'a list \<Rightarrow> ('a \<times> 'a) set" where
  "later_pairs [] = {}"
| "later_pairs (d # ds) = {d} \<times> set ds \<union> later_pairs ds"

text \<open>
  Grouping a list by a key function, keys in order of first occurrence: what the
  \<open>defaultdict\<close> holds after the grouping loop.
\<close>

definition first_occ :: "'a list \<Rightarrow> 'a list" where
  "first_occ xs = rev (remdups (rev xs))"

definition grouped :: "(string \<Rightarrow> string) \<Rightarrow> string list \<Rightarrow> cluster_dict" where
  "grouped f ds = map (\<lambda>k. (k, filter (\<lambda>d. f d = k) ds)) (first_occ (map f ds))"

text \<open>
  The groups of an output: the member lists of the multi-member clusters, and one
  one-element group for each listed singleton.
\<close>

definition output_groups :: "cluster_dict \<times> string list \<Rightarrow> string list list" where
  "output_groups out = map snd (fst out) @ map (\<lambda>d. [d]) (snd out)"

definition same_cluster :: "cluster_dict \<times> string list \<Rightarrow> string \<Rightarrow> string \<Rightarrow> bool" where
  "same_cluster out a b \<longleftrightarrow> (\<exists>g\<in>set (output_groups out). a \<in> set g \<and> b \<in> set g)"

definition idem_on :: "string list \<Rightarrow> (string \<Rightarrow> string) \<Rightarrow> bool" where
  "idem_on D f \<longleftrightarrow> (\<forall>a\<in>set D. f a \<in> set D \<and> f (f a) = f a)"

text \<open>
  The member lists of a cluster dictionary, in its order, each sorted; and the text of a
  report on \<open>n\<close> logos that writes the member lists \<open>cs\<close> as clusters numbered from 1,
  followed by the singletons \<open>ss\<close>, every list in the order given. The report of the
  program is compared with this text.
\<close>

definition sorted_groups :: "cluster_dict \<Rightarrow> string list list" where
  "sorted_groups cl = map (\<lambda>(root, members). sort members) cl"

definition report_text :: "nat \<Rightarrow> string list list \<Rightarrow> string list \<Rightarrow> string" where
  "report_text n cs ss =
     ''# Logo Clustering Report (Perceptual Hash)'' @ newline
     @ ''# Threshold: Hamming distance <= 8'' @ newline
     @ ''# Total logos: '' @ str_nat n @ newline
     @ ''# Clusters (2+ logos): '' @ str_nat (length cs) @ newline
     @ ''# Singletons: '' @ str_nat (length ss) @ newline @ newline
     @ concat (map (\<lambda>(i, ms).
           ''=== Cluster '' @ str_nat i @ '' ('' @ str_nat (length ms) @ '' logos) ==='' @ newline
           @ concat (map (\<lambda>d. ''  '' @ d @ newline) ms)
           @ newline)
         (zip [1 ..< Suc (length cs)] cs))
     @ ''=== Singletons ==='' @ newline
     @ concat (map (\<lambda>d. ''  '' @ d @ newline) ss)"

text \<open>
  The three-domain scenario: hashes \<open>0\<close>, \<open>1\<close>, \<open>2\<close> at distances A-B = 5, B-C = 6,
  A-C = 15.
\<close>

definition scenario_dist :: "nat \<Rightarrow> nat \<Rightarrow> int" where
  "scenario_dist x y =
     (if x = y then 0 else if x + y = 1 then 5 else if x + y = 3 then 6 else 15)"

definition scenario_hashes :: "nat hash_dict" where
  "scenario_hashes = [(''A'', 0), (''B'', 1), (''C'', 2)]"

text \<open>
  One mapping of four domains in two key orders: \<open>c\<close> and \<open>d\<close> share a hash, \<open>a\<close> and
  \<open>b\<close> share another, and the two hashes are far apart.
\<close>

definition abs_dist :: "int \<Rightarrow> int \<Rightarrow> int" where
  "abs_dist x y = \<bar>x - y\<bar>"

definition tie_hashes_cd_first :: "int hash_dict" where
  "tie_hashes_cd_first = [(''c'', 0), (''d'', 0), (''a'', 100), (''b'', 100)]"

definition tie_hashes_ab_first :: "int hash_dict" where
  "tie_hashes_ab_first = [(''a'', 100), (''b'', 100), (''c'', 0), (''d'', 0)]"

text \<open>
  The distance of the hash library on two hashes of one size is the Hamming distance:
  the number of positions at which the two bit vectors differ. Four 16-bit vectors:
  \<open>a\<close> and \<open>b\<close> differ in 8 places, \<open>b\<close> and \<open>c\<close> in 8, \<open>a\<close> and \<open>c\<close> in 16, \<open>a\<close> and
  \<open>d\<close> in 9.
\<close>

definition hamming :: "bool list \<Rightarrow> bool list \<Rightarrow> int" where
  "hamming xs ys = int (length (filter (\<lambda>(x, y). x \<noteq> y) (zip xs ys)))"

definition bits_a :: "bool list" where
  "bits_a = replicate 16 False"

definition bits_b :: "bool list" where
  "bits_b = replicate 8 True @ replicate 8 False"

definition bits_c :: "bool list" where
  "bits_c = replicate 16 True"

definition bits_d :: "bool list" where
  "bits_d = replicate 9 True @ replicate 7 False"

definition chain_hashes :: "bool list hash_dict" where
  "chain_hashes = [(''a.com'', bits_a), (''b.com'', bits_b), (''c.com'', bits_c)]"

section \<open>Candidate scorer (tools/extract-logo.py)\<close>

subsection \<open>Strings\<close>

text \<open>
  Python strings are modelled as \<open>string\<close>: lists of characters with code points below
  256. On these, \<open>str.lower()\<close> maps the capitals \<open>A\<close> to \<open>Z\<close> and the capitals of the
  range 192 to 222 (all but the multiplication sign, 215) to the letter 32 places up, and
  \<open>str.strip()\<close> removes the code points 9 to 13, 28 to 32, 133 and 160 from both ends.
\<close>

definition lower_char :: "char \<Rightarrow> char" where
  "lower_char c =
     (let n = of_char c :: nat
      in if (65 \<le> n \<and> n \<le> 90) \<or> (192 \<le> n \<and> n \<le> 222 \<and> n \<noteq> 215) then char_of (n + 32) else c)"

definition lower :: "string \<Rightarrow> string" where
  "lower s = map lower_char s"

definition is_space :: "char \<Rightarrow> bool" where
  "is_space c =
     (let n = of_char c :: nat
      in (9 \<le> n \<and> n \<le> 13) \<or> (28 \<le> n \<and> n \<le> 32) \<or> n = 133 \<or> n = 160)"

definition strip :: "string \<Rightarrow> string" where
  "strip s = rev (dropWhile is_space (rev (dropWhile is_space s)))"

fun startswith :: "string \<Rightarrow> string \<Rightarrow> bool" where
  "startswith s [] = True"
| "startswith [] (p # ps) = False"
| "startswith (c # cs) (p # ps) = (c = p \<and> startswith cs ps)"

text \<open>\<open>contains sub s\<close> is Python's \<open>sub in s\<close>.\<close>

fun contains :: "string \<Rightarrow> string \<Rightarrow> bool" where
  "contains sub [] = (sub = [])"
| "contains sub (c # cs) = (startswith (c # cs) sub \<or> contains sub cs)"

text \<open>\<open>join sep xs\<close> is Python's \<open>sep.join(xs)\<close>.\<close>

fun join :: "string \<Rightarrow> string list \<Rightarrow> string" where
  "join sep [] = []"
| "join sep [x] = x"
| "join sep (x # y # ys) = x @ sep @ join sep (y # ys)"

text \<open>
  \<open>re.compile(r"k1|k2|...", re.I).search(s)\<close> for literal keywords: some keyword occurs
  in \<open>s\<close>, letter case ignored.
\<close>

definition search_keywords :: "string list \<Rightarrow> string \<Rightarrow> bool" where
  "search_keywords kws s = list_ex (\<lambda>kw. contains kw (lower s)) kws"

definition positive_keywords :: "string list" where
  "positive_keywords = [''logo'', ''brand'', ''identity'']"

definition negative_keywords :: "string list" where
  "negative_keywords = [''partner'', ''client'', ''sponsor'', ''payment'', ''manufacturer'']"

subsection \<open>The libraries the scorer calls\<close>

text \<open>
  \<open>urllib.parse.urljoin\<close>, \<open>urllib.parse.urlparse\<close> and \<open>json.loads\<close> are library
  functions; they are parameters of the model, each returning \<open>None\<close> where the library
  raises. Of a parsed URL the scorer reads the scheme, the network location and the path.
\<close>

record url_parts =
  scheme :: string
  netloc :: string
  path :: string

datatype json =
    JNull
  | JBool bool
  | JNumber int
  | JString string
  | JArray "json list"
  | JObject "(string \<times> json) list"

record library =
  urljoin :: "string \<Rightarrow> string \<Rightarrow> string option"
  urlparse :: "string \<Rightarrow> url_parts option"
  json_loads :: "string \<Rightarrow> json option"

datatype scorer_error = ValueError

subsection \<open>The parsed document\<close>

text \<open>
  BeautifulSoup turns the HTML text into a tree of tags and strings; the tree is the
  input of the model. An attribute value is a string or, for multi-valued attributes
  such as \<open>class\<close> and \<open>rel\<close>, a list of strings. A tag is seen by the scorer as its name
  and its attribute dictionary.
\<close>

datatype attr_val = AStr string | AList "string list"

type_synonym tag = "string \<times> (string \<times> attr_val) list"

datatype node = Tag string "(string \<times> attr_val) list" "node list" | Text string

type_synonym soup = "node list"

definition document_tag :: tag where
  "document_tag = (''[document]'', [])"

text \<open>\<open>tag.get(attr)\<close>.\<close>

definition get_attr :: "tag \<Rightarrow> string \<Rightarrow> attr_val option" where
  "get_attr t attr = map_of (snd t) attr"

text \<open>
  All tags below a node in document order, each with its ancestors (nearest first, as
  \<open>tag.parents\<close> lists them) and its children.
\<close>

fun descendants :: "tag list \<Rightarrow> node \<Rightarrow> (tag \<times> tag list \<times> node list) list" where
  "descendants anc (Text s) = []"
| "descendants anc (Tag n a cs) =
     ((n, a), anc, cs) # concat (map (descendants ((n, a) # anc)) cs)"

definition all_tags :: "soup \<Rightarrow> (tag \<times> tag list \<times> node list) list" where
  "all_tags sp = concat (map (descendants [document_tag]) sp)"

text \<open>\<open>tag.string\<close>: the single string below the tag, if there is exactly one.\<close>

fun tag_string :: "node list \<Rightarrow> string option" where
  "tag_string [Text s] = Some s"
| "tag_string [Tag n a cs] = tag_string cs"
| "tag_string cs = None"

text \<open>
  How \<open>find_all\<close> and \<open>find\<close> match an attribute against a string, and against the
  predicate given for \<open>rel\<close>: a list value matches when one of its items does or when the
  items joined by spaces do; a missing attribute does not match.
\<close>

definition attr_is :: "attr_val option \<Rightarrow> string \<Rightarrow> bool" where
  "attr_is v target =
     (case v of
        None \<Rightarrow> False
      | Some (AStr s) \<Rightarrow> s = target
      | Some (AList xs) \<Rightarrow> list_ex (\<lambda>x. x = target) xs \<or> join '' '' xs = target)"

definition is_icon_rel :: "string \<Rightarrow> bool" where
  "is_icon_rel x = (contains ''icon'' (lower x) \<or> contains ''apple-touch-icon'' (lower x))"

definition rel_matches :: "attr_val option \<Rightarrow> bool" where
  "rel_matches v =
     (case v of
        None \<Rightarrow> False
      | Some (AStr s) \<Rightarrow> is_icon_rel s
      | Some (AList xs) \<Rightarrow> list_ex is_icon_rel xs \<or> is_icon_rel (join '' '' xs))"

definition find_all_scripts :: "soup \<Rightarrow> string option list" where
  "find_all_scripts sp =
     map (\<lambda>(t, anc, cs). tag_string cs)
       (filter (\<lambda>(t, anc, cs). fst t = ''script'' \<and> attr_is (get_attr t ''type'') ''application/ld+json'')
          (all_tags sp))"

definition find_all_links :: "soup \<Rightarrow> tag list" where
  "find_all_links sp =
     map fst (filter (\<lambda>(t, anc, cs). fst t = ''link'' \<and> rel_matches (get_attr t ''rel'')) (all_tags sp))"

definition find_og_image :: "soup \<Rightarrow> tag option" where
  "find_og_image sp =
     (case filter (\<lambda>(t, anc, cs). fst t = ''meta'' \<and> attr_is (get_attr t ''property'') ''og:image'')
             (all_tags sp) of
        [] \<Rightarrow> None
      | (t, anc, cs) # rest \<Rightarrow> Some t)"

definition find_all_imgs :: "soup \<Rightarrow> (tag \<times> tag list) list" where
  "find_all_imgs sp =
     map (\<lambda>(t, anc, cs). (t, anc)) (filter (\<lambda>(t, anc, cs). fst t = ''img'') (all_tags sp))"

subsection \<open>URL helpers\<close>

definition normalize_url :: "library \<Rightarrow> string \<Rightarrow> string option \<Rightarrow> string option" where
  "normalize_url lib base url =
     (case url of
        None \<Rightarrow> None
      | Some u \<Rightarrow>
          if u = [] then None
          else (case urljoin lib base (strip u) of
                  None \<Rightarrow> None
                | Some full_url \<Rightarrow>
                    if \<not> (startswith (lower full_url) ''http://''
                           \<or> startswith (lower full_url) ''https://'')
                    then None
                    else Some full_url))"

definition extract_domain_stem :: "library \<Rightarrow> string \<Rightarrow> string" where
  "extract_domain_stem lib url =
     (case urlparse lib url of
        None \<Rightarrow> []
      | Some parts \<Rightarrow>
          (let nl = netloc parts;
               nl' = (if startswith nl ''www.'' then drop 4 nl else nl)
           in lower (takeWhile (\<lambda>c. c \<noteq> CHR ''.'') nl')))"

definition is_home_link :: "library \<Rightarrow> string \<Rightarrow> string option \<Rightarrow> scorer_error + bool" where
  "is_home_link lib base_url href =
     (case href of
        None \<Rightarrow> Inr False
      | Some h \<Rightarrow>
          if h = [] then Inr False
          else (case normalize_url lib base_url (Some h) of
                  None \<Rightarrow> Inr False
                | Some abs_href \<Rightarrow>
                    (case urlparse lib base_url of
                       None \<Rightarrow> Inl ValueError
                     | Some base_parsed \<Rightarrow>
                         (case urlparse lib abs_href of
                            None \<Rightarrow> Inl ValueError
                          | Some href_parsed \<Rightarrow>
                              if netloc base_parsed = netloc href_parsed
                              then (if path href_parsed \<in> set ['''', ''/'', ''/index.html'', ''/index.php'']
                                    then Inr True else Inr False)
                              else Inr False))))"

definition get_str_attr :: "tag \<Rightarrow> string \<Rightarrow> string option" where
  "get_str_attr t attr =
     (case get_attr t attr of
        Some (AStr s) \<Rightarrow> Some s
      | Some (AList (x # xs)) \<Rightarrow> Some x
      | _ \<Rightarrow> None)"

subsection \<open>Candidates\<close>

text \<open>
  \<open>candidates\<close> is a dictionary from URL to a score and a set of reasons; it is an
  association list in insertion order. A new URL enters with score 0 and no reason.
\<close>

record candidate =
  score :: int
  reasons :: "string set"

type_synonym candidates = "(string \<times> candidate) list"

fun upsert :: "candidates \<Rightarrow> string \<Rightarrow> int \<Rightarrow> string \<Rightarrow> candidates" where
  "upsert [] u s r =
     [(u, \<lparr>score = (if s > 0 then s else 0), reasons = {r}\<rparr>)]"
| "upsert ((k, c) # rest) u s r =
     (if k = u
      then (k, \<lparr>score = (if s > score c then s else score c), reasons = insert r (reasons c)\<rparr>) # rest
      else (k, c) # upsert rest u s r)"

definition update_candidate ::
  "library \<Rightarrow> string \<Rightarrow> candidates \<Rightarrow> string option \<Rightarrow> int \<Rightarrow> string \<Rightarrow> candidates" where
  "update_candidate lib base_url cands url s reason =
     (case normalize_url lib base_url url of
        None \<Rightarrow> cands
      | Some norm_url \<Rightarrow> upsert cands norm_url s reason)"

subsection \<open>Structured data\<close>

text \<open>
  \<open>find_logo\<close> collects the \<open>logo\<close> values of organisation records anywhere in a JSON
  value. A JSON object is a dictionary in insertion order.
\<close>

definition is_org_type :: "json option \<Rightarrow> bool" where
  "is_org_type v =
     (case v of
        Some (JString s) \<Rightarrow> s \<in> set [''Organization'', ''Brand'', ''Corporation'']
      | _ \<Rightarrow> False)"

definition own_logo :: "(string \<times> json) list \<Rightarrow> json list" where
  "own_logo obj =
     (if is_org_type (map_of obj ''@type'') then
        (case map_of obj ''logo'' of
           None \<Rightarrow> []
         | Some (JString s) \<Rightarrow> [JString s]
         | Some (JObject logo_val) \<Rightarrow>
             (case map_of logo_val ''url'' of None \<Rightarrow> [] | Some u \<Rightarrow> [u])
         | Some _ \<Rightarrow> [])
      else [])"

fun find_logo :: "json \<Rightarrow> json list" where
  "find_logo (JObject obj) = own_logo obj @ concat (map (\<lambda>(k, v). find_logo v) obj)"
| "find_logo (JArray items) = concat (map find_logo items)"
| "find_logo v = []"

text \<open>
  \<open>update_candidate\<close> on a value found in structured data. \<open>not url\<close> holds for the
  falsy values, which are dropped; a string is handled as usual; on any other value
  \<open>url.strip()\<close> raises, which is \<open>None\<close> here.
\<close>

definition is_falsy :: "json \<Rightarrow> bool" where
  "is_falsy v =
     (case v of
        JNull \<Rightarrow> True
      | JBool b \<Rightarrow> \<not> b
      | JNumber n \<Rightarrow> n = 0
      | JString s \<Rightarrow> s = []
      | JArray xs \<Rightarrow> xs = []
      | JObject kvs \<Rightarrow> kvs = [])"

definition update_candidate_json ::
  "library \<Rightarrow> string \<Rightarrow> candidates \<Rightarrow> json \<Rightarrow> candidates option" where
  "update_candidate_json lib base_url cands v =
     (if is_falsy v then Some cands
      else (case v of
              JString s \<Rightarrow> Some (update_candidate lib base_url cands (Some s) 60 ''Schema.org Organization'')
            | _ \<Rightarrow> None))"

text \<open>
  The loop over the logos of one script runs inside the \<open>try\<close>: when an update raises,
  the rest of that script's logos are skipped and the updates made so far stay.
\<close>

fun add_logos :: "library \<Rightarrow> string \<Rightarrow> candidates \<Rightarrow> json list \<Rightarrow> candidates" where
  "add_logos lib base_url cands [] = cands"
| "add_logos lib base_url cands (v # vs) =
     (case update_candidate_json lib base_url cands v of
        None \<Rightarrow> cands
      | Some cands' \<Rightarrow> add_logos lib base_url cands' vs)"

definition scan_script :: "library \<Rightarrow> string \<Rightarrow> candidates \<Rightarrow> string option \<Rightarrow> candidates" where
  "scan_script lib base_url cands script_string =
     (case script_string of
        None \<Rightarrow> cands
      | Some s \<Rightarrow>
          if s = [] then cands
          else (case json_loads lib s of
                  None \<Rightarrow> cands
                | Some data \<Rightarrow> add_logos lib base_url cands (find_logo data)))"

definition scan_scripts :: "library \<Rightarrow> string \<Rightarrow> soup \<Rightarrow> candidates \<Rightarrow> candidates" where
  "scan_scripts lib base_url sp cands =
     fold (\<lambda>s c. scan_script lib base_url c s) (find_all_scripts sp) cands"

subsection \<open>Link and meta tags\<close>

definition scan_link :: "library \<Rightarrow> string \<Rightarrow> candidates \<Rightarrow> tag \<Rightarrow> candidates" where
  "scan_link lib base_url cands link =
     (case get_str_attr link ''href'' of
        None \<Rightarrow> cands
      | Some href \<Rightarrow>
          if href = [] then cands
          else update_candidate lib base_url cands (Some href) 10 ''Favicon/Touch Icon'')"

definition scan_links :: "library \<Rightarrow> string \<Rightarrow> soup \<Rightarrow> candidates \<Rightarrow> candidates" where
  "scan_links lib base_url sp cands =
     fold (\<lambda>l c. scan_link lib base_url c l) (find_all_links sp) cands"

definition scan_og_image :: "library \<Rightarrow> string \<Rightarrow> soup \<Rightarrow> candidates \<Rightarrow> candidates" where
  "scan_og_image lib base_url sp cands =
     (case find_og_image sp of
        None \<Rightarrow> cands
      | Some og_image \<Rightarrow>
          (case get_str_attr og_image ''content'' of
             None \<Rightarrow> cands
           | Some content \<Rightarrow>
               if content = [] then cands
               else update_candidate lib base_url cands (Some content) 5 ''OpenGraph Image''))"

subsection \<open>Image tags\<close>

definition class_and_id :: "tag \<Rightarrow> string list" where
  "class_and_id p =
     (case get_attr p ''class'' of
        Some (AList cls) \<Rightarrow> cls
      | Some (AStr cls) \<Rightarrow> [cls]
      | None \<Rightarrow> [])
     @ (case get_attr p ''id'' of
          Some (AStr pid) \<Rightarrow> [pid]
        | Some (AList pid) \<Rightarrow> pid
        | None \<Rightarrow> [])"

definition attr_text :: "attr_val option \<Rightarrow> string" where
  "attr_text v =
     (case v of
        None \<Rightarrow> []
      | Some (AStr s) \<Rightarrow> s
      | Some (AList xs) \<Rightarrow> join '' '' xs)"

text \<open>
  The body of the loop over the images, up to the call of \<open>update_candidate\<close>: the
  additive score of one \<open>img\<close> tag with source \<open>src\<close> and its list of reasons.
\<close>

definition score_image ::
  "library \<Rightarrow> string \<Rightarrow> string \<Rightarrow> tag \<Rightarrow> tag list \<Rightarrow> string \<Rightarrow> scorer_error + int \<times> string list" where
  "score_image lib base_url domain_stem img parents src =
     (let parent_names = map fst parents;
          parent_class_str = join '' '' (concat (map class_and_id parents));
          anchors = filter (\<lambda>p. fst p = ''a'') parents;
          home =
            (case anchors of
               [] \<Rightarrow> Inr False
             | a # rest \<Rightarrow>
                 (case get_attr a ''href'' of
                    Some (AStr href_val) \<Rightarrow> is_home_link lib base_url (Some href_val)
                  | _ \<Rightarrow> Inr False))
      in case home of
           Inl e \<Rightarrow> Inl e
         | Inr linked \<Rightarrow>
             (let s1 = (if linked then 50 else 0);
                  r1 = (if linked then [''Linked to Home''] else []);
                  in_header = (''header'' \<in> set parent_names \<or> contains ''header'' (lower parent_class_str));
                  in_footer = (''footer'' \<in> set parent_names \<or> contains ''footer'' (lower parent_class_str));
                  s2 = (if in_header then s1 + 10 else if in_footer then s1 - 30 else s1);
                  r2 = (if in_header then r1 @ [''In Header'']
                        else if in_footer then r1 @ [''In Footer''] else r1);
                  alt_val = attr_text (get_attr img ''alt'');
                  img_class_val = attr_text (get_attr img ''class'');
                  img_id_val = attr_text (get_attr img ''id'');
                  img_attrs = img_class_val @ '' '' @ img_id_val @ '' '' @ alt_val @ '' '' @ src;
                  pos = search_keywords positive_keywords img_attrs;
                  s3 = (if pos then s2 + 20 else s2);
                  r3 = (if pos then r2 @ [''Keyword Match (logo/brand)''] else r2);
                  stem = (domain_stem \<noteq> [] \<and> contains domain_stem (lower src));
                  s4 = (if stem then s3 + 20 else s3);
                  r4 = (if stem then r3 @ [''Filename matches domain '' @ [CHR 0x27] @ domain_stem @ [CHR 0x27]]
                        else r3);
                  alt_logo = contains ''logo'' (lower alt_val);
                  s5 = (if alt_logo then s4 + 10 else s4);
                  r5 = (if alt_logo then r4 @ [''Alt text contains '' @ [CHR 0x27] @ ''logo'' @ [CHR 0x27]]
                        else r4);
                  neg = (search_keywords negative_keywords img_attrs
                         \<or> search_keywords negative_keywords parent_class_str);
                  s6 = (if neg then s5 - 50 else s5);
                  r6 = (if neg then r5 @ [''Negative Keyword (partner/client)''] else r5)
              in Inr (s6, r6)))"

definition scan_image ::
  "library \<Rightarrow> string \<Rightarrow> string \<Rightarrow> candidates \<Rightarrow> tag \<times> tag list \<Rightarrow> scorer_error + candidates" where
  "scan_image lib base_url domain_stem cands e =
     (case e of (img, parents) \<Rightarrow>
        (case get_attr img ''src'' of
           Some (AStr src) \<Rightarrow>
             if src = [] then Inr cands
             else (case score_image lib base_url domain_stem img parents src of
                     Inl err \<Rightarrow> Inl err
                   | Inr (s, rs) \<Rightarrow>
                       Inr (update_candidate lib base_url cands (Some src) s (join '', '' rs)))
         | _ \<Rightarrow> Inr cands))"

fun scan_images ::
  "library \<Rightarrow> string \<Rightarrow> string \<Rightarrow> candidates \<Rightarrow> (tag \<times> tag list) list \<Rightarrow> scorer_error + candidates" where
  "scan_images lib base_url domain_stem cands [] = Inr cands"
| "scan_images lib base_url domain_stem cands (e # es) =
     (case scan_image lib base_url domain_stem cands e of
        Inl err \<Rightarrow> Inl err
      | Inr cands' \<Rightarrow> scan_images lib base_url domain_stem cands' es)"

subsection \<open>The whole pass, and the ranking\<close>

text \<open>The candidates before the image loop: structured data, link tags, the Open Graph image.\<close>

definition before_images :: "library \<Rightarrow> soup \<Rightarrow> string \<Rightarrow> candidates" where
  "before_images lib sp base_url =
     scan_og_image lib base_url sp (scan_links lib base_url sp (scan_scripts lib base_url sp []))"

definition analyze_html :: "library \<Rightarrow> soup \<Rightarrow> string \<Rightarrow> scorer_error + candidates" where
  "analyze_html lib sp base_url =
     scan_images lib base_url (extract_domain_stem lib base_url)
       (before_images lib sp base_url) (find_all_imgs sp)"

text \<open>
  \<open>main\<close> of the scorer, up to the serialisation: the base URL gets the scheme
  \<open>https\<close> when it has none, the candidates are sorted by descending score (Python's sort
  is stable, also with \<open>reverse=True\<close>) and numbered from 1. An entry of
  \<open>extract_logo_main\<close> is rank, score, URL and the set of signals.
\<close>

definition ranked :: "candidates \<Rightarrow> candidates" where
  "ranked cands = sort_key (\<lambda>(url, data). - score data) cands"

definition results_of :: "candidates \<Rightarrow> (nat \<times> int \<times> string \<times> string set) list" where
  "results_of cands =
     map (\<lambda>(i, url, data). (i + 1, score data, url, reasons data))
       (zip [0 ..< length (ranked cands)] (ranked cands))"

definition extract_logo_main ::
  "library \<Rightarrow> soup \<Rightarrow> string \<Rightarrow> scorer_error + (nat \<times> int \<times> string \<times> string set) list" where
  "extract_logo_main lib sp url_arg =
     (let stripped = strip url_arg
      in case urlparse lib stripped of
           None \<Rightarrow> Inl ValueError
         | Some parts \<Rightarrow>
             (let base_url = (if scheme parts = [] then ''https://'' @ stripped else stripped)
              in case analyze_html lib sp base_url of
                   Inl e \<Rightarrow> Inl e
                 | Inr cands \<Rightarrow> Inr (results_of cands)))"

text \<open>
  Line 38 turns each candidate's set of signals into a list with \<open>list(...)\<close>. The order in
  which a run of the interpreter lists a set of strings is not fixed by the program: it
  follows the hash values of the strings, which change with the hash seed of the process.
  \<open>extract_logo_output\<close> is \<open>main\<close> up to \<open>json.dumps\<close>, with the order in which the run
  lists a set as the parameter \<open>listing\<close>.
\<close>

definition serialized ::
  "(string set \<Rightarrow> string list) \<Rightarrow> (nat \<times> int \<times> string \<times> string set) list
     \<Rightarrow> (nat \<times> int \<times> string \<times> string list) list" where
  "serialized listing results =
     map (\<lambda>(rank, s, url, signals). (rank, s, url, listing signals)) results"

definition extract_logo_output ::
  "library \<Rightarrow> (string set \<Rightarrow> string list) \<Rightarrow> soup \<Rightarrow> string
     \<Rightarrow> scorer_error + (nat \<times> int \<times> string \<times> string list) list" where
  "extract_logo_output lib listing sp url_arg =
     (case extract_logo_main lib sp url_arg of
        Inl e \<Rightarrow> Inl e
      | Inr results \<Rightarrow> Inr (serialized listing results))"

subsection \<open>Specification vocabulary for the scorer\<close>

text \<open>
  A detection is one call of \<open>update_candidate\<close>: the URL as found, the score and the
  reason. The functions below list the detections of each pass in the order in which the
  pass makes them; \<open>detections\<close> lists those of a whole run. They are compared with the
  program in the lemmas, and are not part of it.
\<close>

type_synonym detection = "string option \<times> int \<times> string"

definition apply_detections :: "library \<Rightarrow> string \<Rightarrow> detection list \<Rightarrow> candidates \<Rightarrow> candidates" where
  "apply_detections lib base_url dets cands =
     fold (\<lambda>(url, s, r) c. update_candidate lib base_url c url s r) dets cands"

fun logo_detections :: "json list \<Rightarrow> detection list" where
  "logo_detections [] = []"
| "logo_detections (v # vs) =
     (if is_falsy v then logo_detections vs
      else (case v of
              JString s \<Rightarrow> (Some s, 60, ''Schema.org Organization'') # logo_detections vs
            | _ \<Rightarrow> []))"

definition script_detections :: "library \<Rightarrow> string option \<Rightarrow> detection list" where
  "script_detections lib script_string =
     (case script_string of
        None \<Rightarrow> []
      | Some s \<Rightarrow>
          if s = [] then []
          else (case json_loads lib s of
                  None \<Rightarrow> []
                | Some data \<Rightarrow> logo_detections (find_logo data)))"

definition link_detections :: "tag \<Rightarrow> detection list" where
  "link_detections link =
     (case get_str_attr link ''href'' of
        None \<Rightarrow> []
      | Some href \<Rightarrow> if href = [] then [] else [(Some href, 10, ''Favicon/Touch Icon'')])"

definition og_detections :: "soup \<Rightarrow> detection list" where
  "og_detections sp =
     (case find_og_image sp of
        None \<Rightarrow> []
      | Some og_image \<Rightarrow>
          (case get_str_attr og_image ''content'' of
             None \<Rightarrow> []
           | Some content \<Rightarrow> if content = [] then [] else [(Some content, 5, ''OpenGraph Image'')]))"

fun image_detections ::
  "library \<Rightarrow> string \<Rightarrow> string \<Rightarrow> (tag \<times> tag list) list \<Rightarrow> scorer_error + detection list" where
  "image_detections lib base_url domain_stem [] = Inr []"
| "image_detections lib base_url domain_stem ((img, parents) # es) =
     (case get_attr img ''src'' of
        Some (AStr src) \<Rightarrow>
          if src = [] then image_detections lib base_url domain_stem es
          else (case score_image lib base_url domain_stem img parents src of
                  Inl err \<Rightarrow> Inl err
                | Inr (s, rs) \<Rightarrow>
                    (case image_detections lib base_url domain_stem es of
                       Inl err \<Rightarrow> Inl err
                     | Inr ds \<Rightarrow> Inr ((Some src, s, join '', '' rs) # ds)))
      | _ \<Rightarrow> image_detections lib base_url domain_stem es)"

definition detections :: "library \<Rightarrow> soup \<Rightarrow> string \<Rightarrow> scorer_error + detection list" where
  "detections lib sp base_url =
     (case image_detections lib base_url (extract_domain_stem lib base_url) (find_all_imgs sp) of
        Inl err \<Rightarrow> Inl err
      | Inr ds \<Rightarrow>
          Inr (concat (map (script_detections lib) (find_all_scripts sp))
               @ concat (map link_detections (find_all_links sp))
               @ og_detections sp
               @ ds))"

text \<open>
  The contributions to a candidate: score and reason of every detection whose URL
  normalizes to the candidate's URL.
\<close>

definition contributions :: "library \<Rightarrow> string \<Rightarrow> detection list \<Rightarrow> string \<Rightarrow> (int \<times> string) list" where
  "contributions lib base_url dets u =
     map snd (filter (\<lambda>(url, s, r). normalize_url lib base_url url = Some u) dets)"

text \<open>
  A structured-data block that fails to parse: a \<open>script\<close> tag of type
  \<open>application/ld+json\<close> whose content is one string on which \<open>json.loads\<close> raises.
  \<open>inserted b sp sp'\<close>: the document \<open>sp'\<close> is \<open>sp\<close> with the node \<open>b\<close> added at some
  place, at top level or among the children of a tag other than a \<open>script\<close> tag (whose
  content is text).
\<close>

definition malformed_block :: "library \<Rightarrow> node \<Rightarrow> bool" where
  "malformed_block lib b \<longleftrightarrow>
     (\<exists>a s. b = Tag ''script'' a [Text s]
            \<and> attr_is (map_of a ''type'') ''application/ld+json''
            \<and> json_loads lib s = None)"

inductive inserted :: "node \<Rightarrow> node list \<Rightarrow> node list \<Rightarrow> bool" for b :: node where
  here: "inserted b (xs @ ys) (xs @ b # ys)"
| below: "inserted b cs cs' \<Longrightarrow> n \<noteq> ''script'' \<Longrightarrow>
          inserted b (xs @ Tag n a cs # ys) (xs @ Tag n a cs' # ys)"

text \<open>The tags below a list of sibling nodes, as \<open>all_tags\<close> lists them for a document.\<close>

definition forest :: "tag list \<Rightarrow> node list \<Rightarrow> (tag \<times> tag list \<times> node list) list" where
  "forest anc ns = concat (map (descendants anc) ns)"

text \<open>
  What every run's listing of a set does: each element of a finite set is listed, once.
  Two such listings: by ascending and by descending order of the strings.
\<close>

definition lists_each_once :: "(string set \<Rightarrow> string list) \<Rightarrow> bool" where
  "lists_each_once listing \<longleftrightarrow> (\<forall>S. finite S \<longrightarrow> set (listing S) = S \<and> distinct (listing S))"

definition listing_ascending :: "string set \<Rightarrow> string list" where
  "listing_ascending S = sorted_list_of_set S"

definition listing_descending :: "string set \<Rightarrow> string list" where
  "listing_descending S = rev (sorted_list_of_set S)"

section \<open>Example inputs\<close>

text \<open>
  A small stand-in for the three library functions, used to run the scorer on examples.
  It splits and joins absolute \<open>http\<close> and \<open>https\<close> URLs, absolute paths and plain
  relative paths, and it parses exactly one JSON text; it agrees with the libraries on
  the inputs of the examples and makes no claim elsewhere.
\<close>

definition after_scheme :: "string \<Rightarrow> string \<Rightarrow> url_parts" where
  "after_scheme sch rest =
     \<lparr>scheme = sch,
      netloc = takeWhile (\<lambda>c. c \<notin> set ''/?#'') rest,
      path = takeWhile (\<lambda>c. c \<notin> set ''?#'') (dropWhile (\<lambda>c. c \<notin> set ''/?#'') rest)\<rparr>"

definition example_urlparse :: "string \<Rightarrow> url_parts option" where
  "example_urlparse u =
     (if startswith u ''https://'' then Some (after_scheme ''https'' (drop 8 u))
      else if startswith u ''http://'' then Some (after_scheme ''http'' (drop 7 u))
      else Some \<lparr>scheme = [], netloc = [], path = takeWhile (\<lambda>c. c \<notin> set ''?#'') u\<rparr>)"

definition example_urljoin :: "string \<Rightarrow> string \<Rightarrow> string option" where
  "example_urljoin base u =
     (if u = [] then Some base
      else if startswith u ''https://'' \<or> startswith u ''http://'' then Some u
      else (case example_urlparse base of
              None \<Rightarrow> None
            | Some b \<Rightarrow>
                if startswith u ''/'' then Some (scheme b @ ''://'' @ netloc b @ u)
                else Some (scheme b @ ''://'' @ netloc b
                           @ rev (dropWhile (\<lambda>c. c \<noteq> CHR ''/'') (rev (path b))) @ ''/'' @ u)))"

definition example_json_loads :: "string \<Rightarrow> json option" where
  \<open>example_json_loads s =
     (if s = ''{"@type": "Organization", "logo": "/brand.png"}''
      then Some (JObject [(''@type'', JString ''Organization''), (''logo'', JString ''/brand.png'')])
      else None)\<close>

definition example_lib :: library where
  "example_lib = \<lparr>urljoin = example_urljoin, urlparse = example_urlparse, json_loads = example_json_loads\<rparr>"

text \<open>The page of the home-link scenario, for the base URL \<open>https://acme.com\<close>.\<close>

definition acme_page :: soup where
  "acme_page =
     [Tag ''a'' [(''href'', AStr ''/'')]
        [Tag ''img'' [(''src'', AStr ''/logo.png''), (''alt'', AStr ''Acme logo'')] []]]"

text \<open>
  Pages for the merge of detections: an icon link and an image with the same source;
  two images with the same source, one in a footer and one inside a partners block; one
  image in a footer; one image with nothing to score.
\<close>

definition icon_and_image_page :: soup where
  "icon_and_image_page =
     [Tag ''link'' [(''rel'', AList [''icon'']), (''href'', AStr ''/logo.png'')] [],
      Tag ''img'' [(''src'', AStr ''/logo.png'')] []]"

definition two_penalties_page :: soup where
  "two_penalties_page =
     [Tag ''footer'' [] [Tag ''img'' [(''src'', AStr ''/x.png'')] []],
      Tag ''div'' [(''class'', AList [''partners''])] [Tag ''img'' [(''src'', AStr ''/x.png'')] []]]"

definition footer_page :: soup where
  "footer_page = [Tag ''footer'' [] [Tag ''img'' [(''src'', AStr ''/f.png'')] []]]"

definition plain_image_page :: soup where
  "plain_image_page = [Tag ''p'' [] [Tag ''img'' [(''src'', AStr ''/pic.png'')] []]]"

text \<open>A page with an icon link and, in a paragraph, an image with the same source and nothing to score.\<close>

definition icon_and_plain_image_page :: soup where
  "icon_and_plain_image_page =
     [Tag ''link'' [(''rel'', AList [''icon'']), (''href'', AStr ''/pic.png'')] [],
      Tag ''p'' [] [Tag ''img'' [(''src'', AStr ''/pic.png'')] []]]"

text \<open>
  A page with an organisation record and an image, a structured-data block that does not
  parse, and the page with that block put before the organisation record.
\<close>

definition org_script :: node where
  \<open>org_script =
     Tag ''script'' [(''type'', AStr ''application/ld+json'')]
       [Text ''{"@type": "Organization", "logo": "/brand.png"}'']\<close>

definition org_page :: soup where
  "org_page =
     [Tag ''head'' [] [org_script],
      Tag ''body'' [] [Tag ''img'' [(''src'', AStr ''/logo.png'')] []]]"

definition broken_block :: node where
  "broken_block = Tag ''script'' [(''type'', AStr ''application/ld+json'')] [Text ''{not json'']"

definition org_page_with_broken_block :: soup where
  "org_page_with_broken_block =
     [Tag ''head'' [] [broken_block, org_script],
      Tag ''body'' [] [Tag ''img'' [(''src'', AStr ''/logo.png'')] []]]"

section \<open>Correctness of the clustering engine\<close>

subsection \<open>Roots and path compression\<close>

lemma root_of_is_root: "root_of p x r \<Longrightarrow> p r = Some r"
  by (induction rule: root_of.induct) auto

lemma root_of_in_dom: "root_of p x r \<Longrightarrow> x \<in> dom p"
  by (induction rule: root_of.induct) auto

lemma root_of_root_eq: "p r = Some r \<Longrightarrow> root_of p r s \<Longrightarrow> s = r"
  by (erule root_of.cases) auto

lemma root_of_det: "root_of p x r \<Longrightarrow> root_of p x s \<Longrightarrow> r = s"
proof (induction arbitrary: s rule: root_of.induct)
  case (root x)
  then show ?case using root_of_root_eq by blast
next
  case (link x y r)
  from link.prems link.hyps(1,2) have "root_of p y s"
    by (auto elim: root_of.cases)
  then show ?case using link.IH by blast
qed

lemma root_of_parent: "p x = Some y \<Longrightarrow> root_of p x r \<longleftrightarrow> root_of p y r"
proof (cases "y = x")
  case True
  then show ?thesis by simp
next
  case False
  assume px: "p x = Some y"
  show ?thesis
  proof
    assume "root_of p x r"
    then show "root_of p y r" using px False by (auto elim: root_of.cases)
  next
    assume "root_of p y r"
    then show "root_of p x r" using px False by (auto intro: root_of.link)
  qed
qed

text \<open>Redirecting a node straight to its root changes no root.\<close>

lemma compress_fwd:
  assumes xr: "root_of p x r"
  shows "root_of p y s \<Longrightarrow> root_of (p(x \<mapsto> r)) y s"
proof (induction rule: root_of.induct)
  case (root y)
  show ?case
  proof (cases "y = x")
    case True
    with root xr have "r = x" using root_of_root_eq by blast
    with True show ?thesis by (simp add: root_of.root)
  next
    case False
    with root show ?thesis by (simp add: root_of.root)
  qed
next
  case (link y z s)
  show ?case
  proof (cases "y = x")
    case True
    from link.hyps have "root_of p y s" by (auto intro: root_of.link)
    with True xr have sr: "s = r" using root_of_det by blast
    have rr: "(p(x \<mapsto> r)) r = Some r"
      using root_of_is_root[OF xr] by simp
    show ?thesis
    proof (cases "r = x")
      case True
      with \<open>y = x\<close> sr show ?thesis by (simp add: root_of.root)
    next
      case False
      have "root_of (p(x \<mapsto> r)) r r" using rr by (rule root_of.root)
      then have "root_of (p(x \<mapsto> r)) x r"
        using False by (auto intro: root_of.link[where y = r])
      with \<open>y = x\<close> sr show ?thesis by blast
    qed
  next
    case False
    with link show ?thesis by (auto intro: root_of.link)
  qed
qed

lemma compress_bwd:
  assumes xr: "root_of p x r"
  shows "root_of (p(x \<mapsto> r)) y s \<Longrightarrow> root_of p y s"
proof (induction rule: root_of.induct)
  case (root y)
  show ?case
  proof (cases "y = x")
    case True
    with root have "r = x" by simp
    with xr True show ?thesis by simp
  next
    case False
    with root show ?thesis by (simp add: root_of.root)
  qed
next
  case (link y z s)
  show ?case
  proof (cases "y = x")
    case True
    with link.hyps have "z = r" by simp
    with link.IH have "root_of p r s" by simp
    then have "s = r" using root_of_root_eq root_of_is_root[OF xr] by blast
    with xr True show ?thesis by simp
  next
    case False
    with link show ?thesis by (auto intro: root_of.link)
  qed
qed

lemma compress_root_of:
  "root_of p x r \<Longrightarrow> root_of (p(x \<mapsto> r)) y s \<longleftrightarrow> root_of p y s"
  using compress_fwd compress_bwd by blast

lemma same_roots_refl: "same_roots p p"
  by (simp add: same_roots_def)

lemma same_roots_trans: "same_roots p'' p' \<Longrightarrow> same_roots p' p \<Longrightarrow> same_roots p'' p"
  by (simp add: same_roots_def)

lemma find_cluster_root:
  "root_of p x r \<Longrightarrow> \<exists>p'. find_cluster p x = Some (Inr (p', r)) \<and> same_roots p' p"
proof (induction rule: root_of.induct)
  case (root x)
  then show ?case
    by (subst find_cluster.simps) (auto simp: same_roots_refl)
next
  case (link x y r)
  then obtain p' where f: "find_cluster p y = Some (Inr (p', r))" and s: "same_roots p' p"
    by blast
  have "root_of p x r" using link.hyps by (auto intro: root_of.link)
  then have xr: "root_of p' x r" using s by (simp add: same_roots_def)
  have "x \<in> dom p" using link.hyps by auto
  then have "dom (p'(x \<mapsto> r)) = dom p" using s by (auto simp: same_roots_def)
  then have "same_roots (p'(x \<mapsto> r)) p"
    using s compress_root_of[OF xr] by (simp add: same_roots_def)
  moreover have "find_cluster p x = Some (Inr (p'(x \<mapsto> r), r))"
    using link.hyps(1,2) f by (subst find_cluster.simps) simp
  ultimately show ?case by blast
qed

text \<open>Hanging one root under another.\<close>

lemma link_roots:
  assumes ra: "p ra = Some ra" and rb: "p rb = Some rb" and ne: "ra \<noteq> rb"
  shows "root_of (p(ra \<mapsto> rb)) y s \<longleftrightarrow> (if root_of p y ra then s = rb else root_of p y s)"
proof -
  let ?q = "p(ra \<mapsto> rb)"
  have rbq: "root_of ?q rb rb" using rb ne by (simp add: root_of.root)
  have raq: "root_of ?q ra rb" using rbq ne by (auto intro: root_of.link[where y = rb])
  have keep: "root_of p y t \<Longrightarrow> t \<noteq> ra \<Longrightarrow> root_of ?q y t" for y t
  proof (induction rule: root_of.induct)
    case (root y)
    then show ?case by (simp add: root_of.root)
  next
    case (link y z t)
    then have "y \<noteq> ra" using ra by auto
    with link show ?case by (auto intro: root_of.link[where y = z])
  qed
  have move: "root_of p y t \<Longrightarrow> t = ra \<Longrightarrow> root_of ?q y rb" for y t
  proof (induction rule: root_of.induct)
    case (root y)
    then show ?case using raq by blast
  next
    case (link y z t)
    then have "y \<noteq> ra" using ra by auto
    with link show ?case by (auto intro: root_of.link[where y = z])
  qed
  have bwd: "root_of ?q y t \<Longrightarrow> (if root_of p y ra then t = rb else root_of p y t)" for y t
  proof (induction rule: root_of.induct)
    case (root y)
    then have yne: "y \<noteq> ra" using ne by (auto split: if_splits)
    with root have py: "p y = Some y" by simp
    then have "root_of p y y" by (rule root_of.root)
    moreover have "\<not> root_of p y ra" using py yne root_of_root_eq by blast
    ultimately show ?case by simp
  next
    case (link y z t)
    show ?case
    proof (cases "y = ra")
      case True
      with link.hyps have "z = rb" by simp
      moreover have "\<not> root_of p rb ra" using rb ne root_of_root_eq by blast
      ultimately have "root_of p rb t" using link.IH by simp
      then have "t = rb" using rb root_of_root_eq by blast
      moreover have "root_of p y ra" using True ra by (simp add: root_of.root)
      ultimately show ?thesis by simp
    next
      case False
      with link.hyps have "p y = Some z" by simp
      then have "root_of p y u \<longleftrightarrow> root_of p z u" for u by (rule root_of_parent)
      with link.IH show ?thesis by simp
    qed
  qed
  show ?thesis
  proof
    assume "root_of ?q y s"
    then show "if root_of p y ra then s = rb else root_of p y s" by (rule bwd)
  next
    assume h: "if root_of p y ra then s = rb else root_of p y s"
    show "root_of ?q y s"
    proof (cases "root_of p y ra")
      case True
      with h move show ?thesis by simp
    next
      case False
      with h have ys: "root_of p y s" by simp
      with False have "s \<noteq> ra" by auto
      with ys keep show ?thesis by blast
    qed
  qed
qed

lemma merge_classes_commute: "merge_classes R a b = merge_classes R b a"
  by (auto simp: merge_classes_def)

lemma uf_rel_same_roots: "same_roots p' p \<Longrightarrow> uf_rel p' = uf_rel p"
  by (simp add: uf_rel_def same_roots_def)

lemma uf_rel_sym: "(x, y) \<in> uf_rel p \<Longrightarrow> (y, x) \<in> uf_rel p"
  by (auto simp: uf_rel_def)

lemma uf_rel_trans: "(x, y) \<in> uf_rel p \<Longrightarrow> (y, z) \<in> uf_rel p \<Longrightarrow> (x, z) \<in> uf_rel p"
  by (auto simp: uf_rel_def dest: root_of_det)

lemma merge_classes_absorb:
  assumes "(a, b) \<in> uf_rel p"
  shows "merge_classes (uf_rel p) a b = uf_rel p"
proof -
  have ba: "(b, a) \<in> uf_rel p" using assms by (rule uf_rel_sym)
  show ?thesis
    unfolding merge_classes_def
    using assms ba by (blast intro: uf_rel_trans)
qed

lemma link_rel:
  assumes a: "root_of p a ra" and b: "root_of p b rb" and ne: "ra \<noteq> rb"
  shows "uf_rel (p(ra \<mapsto> rb)) = merge_classes (uf_rel p) a b"
proof -
  have ra: "p ra = Some ra" and rb: "p rb = Some rb"
    using a b by (auto dest: root_of_is_root)
  note L = link_roots[OF ra rb ne]
  have ra_iff: "root_of p a r \<longleftrightarrow> r = ra" for r using a root_of_det by blast
  have rb_iff: "root_of p b r \<longleftrightarrow> r = rb" for r using b root_of_det by blast
  have rbrb: "root_of p rb rb" using rb by (rule root_of.root)
  show ?thesis
  proof (rule set_eqI, clarify)
    fix x y
    show "(x, y) \<in> uf_rel (p(ra \<mapsto> rb)) \<longleftrightarrow> (x, y) \<in> merge_classes (uf_rel p) a b"
    proof
      assume "(x, y) \<in> uf_rel (p(ra \<mapsto> rb))"
      then obtain s where xs: "if root_of p x ra then s = rb else root_of p x s"
        and ys: "if root_of p y ra then s = rb else root_of p y s"
        by (auto simp: uf_rel_def L)
      show "(x, y) \<in> merge_classes (uf_rel p) a b"
      proof (cases "root_of p x ra")
        case xa: True
        show ?thesis
        proof (cases "root_of p y ra")
          case True
          with xa show ?thesis by (auto simp: merge_classes_def uf_rel_def)
        next
          case False
          with xa xs ys have "root_of p y rb" by simp
          with xa a b show ?thesis by (auto simp: merge_classes_def uf_rel_def)
        qed
      next
        case xa: False
        show ?thesis
        proof (cases "root_of p y ra")
          case True
          with xa xs ys have "root_of p x rb" by simp
          with True a b show ?thesis by (auto simp: merge_classes_def uf_rel_def)
        next
          case False
          with xa xs ys show ?thesis by (auto simp: merge_classes_def uf_rel_def)
        qed
      qed
    next
      assume "(x, y) \<in> merge_classes (uf_rel p) a b"
      then consider (same) r where "root_of p x r" "root_of p y r"
        | (ab) "root_of p x ra" "root_of p y rb"
        | (ba) "root_of p x rb" "root_of p y ra"
        by (auto simp: merge_classes_def uf_rel_def ra_iff rb_iff)
      then show "(x, y) \<in> uf_rel (p(ra \<mapsto> rb))"
      proof cases
        case same
        show ?thesis
        proof (cases "r = ra")
          case True
          with same show ?thesis by (auto simp: uf_rel_def L)
        next
          case False
          with same have "\<not> root_of p x ra" "\<not> root_of p y ra"
            using root_of_det by blast+
          with same show ?thesis by (auto simp: uf_rel_def L)
        qed
      next
        case ab
        then have "\<not> root_of p y ra" using ne root_of_det by blast
        with ab show ?thesis by (auto simp: uf_rel_def L)
      next
        case ba
        then have "\<not> root_of p x ra" using ne root_of_det by blast
        with ba show ?thesis by (auto simp: uf_rel_def L)
      qed
    qed
  qed
qed

lemma link_total:
  assumes ra: "p ra = Some ra" and rb: "p rb = Some rb" and ne: "ra \<noteq> rb"
    and x: "root_of p x r"
  shows "\<exists>s. root_of (p(ra \<mapsto> rb)) x s"
proof (cases "root_of p x ra")
  case True
  then show ?thesis using link_roots[OF ra rb ne, of x rb] by auto
next
  case False
  then show ?thesis using link_roots[OF ra rb ne, of x r] x by auto
qed

lemma uf_inv_link:
  assumes inv: "uf_inv D (p, rk)" and a: "root_of p a ra" and b: "root_of p b rb"
    and ne: "ra \<noteq> rb" and dk: "dom rk \<subseteq> dom rk'"
  shows "uf_inv D (p(ra \<mapsto> rb), rk')"
proof -
  have ra: "p ra = Some ra" and rb: "p rb = Some rb"
    using a b by (auto dest: root_of_is_root)
  have "ra \<in> D" using ra inv by (auto simp: uf_inv_def)
  then have "dom (p(ra \<mapsto> rb)) = D" using inv by (auto simp: uf_inv_def)
  moreover have "\<forall>x\<in>D. \<exists>s. root_of (p(ra \<mapsto> rb)) x s"
  proof
    fix x assume "x \<in> D"
    then obtain r where "root_of p x r" using inv by (auto simp: uf_inv_def)
    then show "\<exists>s. root_of (p(ra \<mapsto> rb)) x s" by (rule link_total[OF ra rb ne])
  qed
  moreover have "D \<subseteq> dom rk'" using inv dk by (simp add: uf_inv_def) blast
  ultimately show ?thesis by (simp add: uf_inv_def)
qed

lemma uf_inv_same_roots:
  "uf_inv D (p, rk) \<Longrightarrow> same_roots p' p \<Longrightarrow> uf_inv D (p', rk)"
  by (auto simp: uf_inv_def same_roots_def)

lemma union_clusters_correct:
  assumes inv: "uf_inv D (p, rk)" and a: "a \<in> D" and b: "b \<in> D"
  shows "\<exists>st'. union_clusters (p, rk) a b = ok st' \<and> uf_inv D st'
           \<and> uf_rel (fst st') = merge_classes (uf_rel p) a b"
proof -
  from inv a obtain ra where ra: "root_of p a ra" by (auto simp: uf_inv_def)
  then obtain p1 where f1: "find_cluster p a = Some (Inr (p1, ra))" and s1: "same_roots p1 p"
    using find_cluster_root by blast
  from inv b obtain rb where rb: "root_of p b rb" by (auto simp: uf_inv_def)
  then have "root_of p1 b rb" using s1 by (simp add: same_roots_def)
  then obtain p2 where f2: "find_cluster p1 b = Some (Inr (p2, rb))" and s2: "same_roots p2 p1"
    using find_cluster_root by blast
  have s: "same_roots p2 p" using s2 s1 by (rule same_roots_trans)
  have inv2: "uf_inv D (p2, rk)" using inv s by (rule uf_inv_same_roots)
  have rel2: "uf_rel p2 = uf_rel p" using s by (rule uf_rel_same_roots)
  have a2: "root_of p2 a ra" and b2: "root_of p2 b rb"
    using ra rb s by (simp_all add: same_roots_def)
  have "ra \<in> D" "rb \<in> D"
    using ra rb inv by (auto simp: uf_inv_def dest!: root_of_is_root)
  then obtain ka kb where ka: "rk ra = Some ka" and kb: "rk rb = Some kb"
    using inv by (fastforce simp: uf_inv_def)
  show ?thesis
  proof (cases "ra = rb")
    case True
    then have "union_clusters (p, rk) a b = ok (p2, rk)"
      using f1 f2 by (simp add: union_clusters_def bind_result_def)
    moreover have "(a, b) \<in> uf_rel p" using ra rb True by (auto simp: uf_rel_def)
    then have "merge_classes (uf_rel p) a b = uf_rel p" by (rule merge_classes_absorb)
    ultimately show ?thesis using inv2 rel2 by auto
  next
    case ne: False
    have ne': "rb \<noteq> ra" using ne by simp
    have relab: "uf_rel (p2(ra \<mapsto> rb)) = merge_classes (uf_rel p) a b"
      using link_rel[OF a2 b2 ne] rel2 by simp
    have relba: "uf_rel (p2(rb \<mapsto> ra)) = merge_classes (uf_rel p) a b"
      using link_rel[OF b2 a2 ne'] rel2 merge_classes_commute[of "uf_rel p" a b] by simp
    have invab: "uf_inv D (p2(ra \<mapsto> rb), rk)"
      using uf_inv_link[OF inv2 a2 b2 ne] by simp
    have invba: "uf_inv D (p2(rb \<mapsto> ra), rk')" if "dom rk \<subseteq> dom rk'" for rk'
      using uf_inv_link[OF inv2 b2 a2 ne' that] .
    consider (lt) "ka < kb" | (gt) "ka > kb" | (eq) "ka = kb" by linarith
    then show ?thesis
    proof cases
      case lt
      then have "union_clusters (p, rk) a b = ok (p2(ra \<mapsto> rb), rk)"
        using f1 f2 ne ka kb by (simp add: union_clusters_def bind_result_def)
      then show ?thesis using invab relab by auto
    next
      case gt
      then have "union_clusters (p, rk) a b = ok (p2(rb \<mapsto> ra), rk)"
        using f1 f2 ne ka kb by (simp add: union_clusters_def bind_result_def)
      then show ?thesis using invba[of rk] relba by auto
    next
      case eq
      then have "union_clusters (p, rk) a b = ok (p2(rb \<mapsto> ra), rk(ra \<mapsto> ka + 1))"
        using f1 f2 ne ka kb by (simp add: union_clusters_def bind_result_def)
      moreover have "dom rk \<subseteq> dom (rk(ra \<mapsto> ka + 1))" by auto
      then have "uf_inv D (p2(rb \<mapsto> ra), rk(ra \<mapsto> ka + 1))" by (rule invba)
      ultimately show ?thesis using relba by auto
    qed
  qed
qed

lemma conn_refl: "x \<in> D \<Longrightarrow> (x, x) \<in> conn D E"
  by (simp add: conn_def)

lemma conn_sym: "(x, y) \<in> conn D E \<Longrightarrow> (y, x) \<in> conn D E"
proof -
  assume "(x, y) \<in> conn D E"
  then have "(x, y) \<in> (E \<union> E\<inverse>)\<^sup>*" and xy: "x \<in> D" "y \<in> D" by (auto simp: conn_def)
  then have "(y, x) \<in> ((E \<union> E\<inverse>)\<^sup>*)\<inverse>" by simp
  then have "(y, x) \<in> ((E \<union> E\<inverse>)\<inverse>)\<^sup>*" by (simp only: rtrancl_converse)
  moreover have "(E \<union> E\<inverse>)\<inverse> = E \<union> E\<inverse>" by auto
  ultimately show ?thesis using xy by (simp add: conn_def)
qed

lemma conn_trans: "(x, y) \<in> conn D E \<Longrightarrow> (y, z) \<in> conn D E \<Longrightarrow> (x, z) \<in> conn D E"
  by (auto simp: conn_def)

lemma conn_mono: "E \<subseteq> E' \<Longrightarrow> conn D E \<subseteq> conn D E'"
proof -
  assume "E \<subseteq> E'"
  then have "E \<union> E\<inverse> \<subseteq> E' \<union> E'\<inverse>" by auto
  then have "(E \<union> E\<inverse>)\<^sup>* \<subseteq> (E' \<union> E'\<inverse>)\<^sup>*" by (rule rtrancl_mono)
  then show ?thesis by (auto simp: conn_def)
qed

lemma conn_edge: "(a, b) \<in> E \<Longrightarrow> a \<in> D \<Longrightarrow> b \<in> D \<Longrightarrow> (a, b) \<in> conn D E"
  by (auto simp: conn_def)

lemma conn_insert:
  assumes a: "a \<in> D" and b: "b \<in> D" and E: "E \<subseteq> D \<times> D"
  shows "conn D (insert (a, b) E) = merge_classes (conn D E) a b"
proof -
  let ?R = "conn D E" and ?E' = "insert (a, b) E"
  have sub: "?R \<subseteq> conn D ?E'" by (rule conn_mono) auto
  have ab: "(a, b) \<in> conn D ?E'" using a b by (intro conn_edge) auto
  have ba: "(b, a) \<in> conn D ?E'" using ab by (rule conn_sym)
  have ge: "merge_classes ?R a b \<subseteq> conn D ?E'"
  proof (rule subsetI, clarify)
    fix x y assume "(x, y) \<in> merge_classes ?R a b"
    then consider "(x, y) \<in> ?R" | "(x, a) \<in> ?R" "(b, y) \<in> ?R" | "(x, b) \<in> ?R" "(a, y) \<in> ?R"
      by (auto simp: merge_classes_def)
    then show "(x, y) \<in> conn D ?E'"
    proof cases
      case 1
      then show ?thesis using sub by blast
    next
      case 2
      then have "(x, a) \<in> conn D ?E'" "(b, y) \<in> conn D ?E'" using sub by blast+
      then show ?thesis using ab by (blast intro: conn_trans)
    next
      case 3
      then have "(x, b) \<in> conn D ?E'" "(a, y) \<in> conn D ?E'" using sub by blast+
      then show ?thesis using ba by (blast intro: conn_trans)
    qed
  qed
  have E': "?E' \<union> ?E'\<inverse> \<subseteq> D \<times> D" using a b E by auto
  have step: "(x, z) \<in> merge_classes ?R a b"
    if xy: "(x, y) \<in> merge_classes ?R a b" and yz: "(y, z) \<in> ?E' \<union> ?E'\<inverse>" for x y z
  proof -
    have x: "x \<in> D" using xy by (auto simp: merge_classes_def conn_def)
    have aa: "(a, a) \<in> ?R" and bb: "(b, b) \<in> ?R" using a b by (simp_all add: conn_refl)
    from yz consider (old) "(y, z) \<in> E \<union> E\<inverse>" | (ab) "y = a" "z = b" | (ba) "y = b" "z = a"
      by auto
    then show ?thesis
    proof cases
      case old
      then have "y \<in> D" "z \<in> D" using E by auto
      with old have R: "(y, z) \<in> ?R" by (auto simp: conn_def)
      from xy consider "(x, y) \<in> ?R" | "(x, a) \<in> ?R" "(b, y) \<in> ?R" | "(x, b) \<in> ?R" "(a, y) \<in> ?R"
        by (auto simp: merge_classes_def)
      then show ?thesis
      proof cases
        case 1
        from 1 R have "(x, z) \<in> ?R" by (rule conn_trans)
        then show ?thesis by (simp add: merge_classes_def)
      next
        case 2
        from 2(2) R have "(b, z) \<in> ?R" by (rule conn_trans)
        with 2(1) show ?thesis by (simp add: merge_classes_def)
      next
        case 3
        from 3(2) R have "(a, z) \<in> ?R" by (rule conn_trans)
        with 3(1) show ?thesis by (simp add: merge_classes_def)
      qed
    next
      case ab
      from xy ab consider "(x, a) \<in> ?R" | "(x, b) \<in> ?R"
        by (auto simp: merge_classes_def intro: conn_trans)
      then show ?thesis
      proof cases
        case 1
        with bb ab show ?thesis by (simp add: merge_classes_def)
      next
        case 2
        with ab show ?thesis by (simp add: merge_classes_def)
      qed
    next
      case ba
      from xy ba consider "(x, a) \<in> ?R" | "(x, b) \<in> ?R"
        by (auto simp: merge_classes_def intro: conn_trans)
      then show ?thesis
      proof cases
        case 1
        with ba show ?thesis by (simp add: merge_classes_def)
      next
        case 2
        with aa ba show ?thesis by (simp add: merge_classes_def)
      qed
    qed
  qed
  have le: "conn D ?E' \<subseteq> merge_classes ?R a b"
  proof (rule subsetI, clarify)
    fix x y assume "(x, y) \<in> conn D ?E'"
    then have r: "(x, y) \<in> (?E' \<union> ?E'\<inverse>)\<^sup>*" and x: "x \<in> D" by (auto simp: conn_def)
    from r show "(x, y) \<in> merge_classes ?R a b"
    proof (induction rule: rtrancl_induct)
      case base
      show ?case using x by (simp add: merge_classes_def conn_refl)
    next
      case (step y z)
      then show ?case using \<open>\<And>x y z. \<lbrakk>(x, y) \<in> merge_classes ?R a b; (y, z) \<in> ?E' \<union> ?E'\<inverse>\<rbrakk> \<Longrightarrow> (x, z) \<in> merge_classes ?R a b\<close>
        by blast
    qed
  qed
  show ?thesis using ge le by blast
qed

lemma compare_with_correct:
  assumes "uf_inv D st" and "D = fst ` set hashes" and "d1 \<in> D" and "set ds \<subseteq> D"
    and "E \<subseteq> D \<times> D" and "uf_rel (fst st) = conn D E"
  shows "\<exists>st'. compare_with dist hashes d1 ds st = ok st' \<and> uf_inv D st'
           \<and> uf_rel (fst st') = conn D (E \<union> ({d1} \<times> set ds \<inter> similar dist hashes))"
  using assms
proof (induction ds arbitrary: st E)
  case Nil
  then show ?case by (cases st) auto
next
  case (Cons d2 ds)
  have d2: "d2 \<in> D" using Cons.prems by simp
  obtain h1 where h1: "map_of hashes d1 = Some h1"
    using Cons.prems(2,3) by (metis domD dom_map_of_conv_image_fst)
  obtain h2 where h2: "map_of hashes d2 = Some h2"
    using Cons.prems(2) d2 by (metis domD dom_map_of_conv_image_fst)
  have ds: "set ds \<subseteq> D" using Cons.prems by simp
  show ?case
  proof (cases "dist h1 h2 \<le> HASH_THRESHOLD")
    case True
    obtain p rk where st: "st = (p, rk)" by (cases st)
    obtain st1 where u: "union_clusters st d1 d2 = ok st1" and inv1: "uf_inv D st1"
      and rel1: "uf_rel (fst st1) = merge_classes (uf_rel p) d1 d2"
      using union_clusters_correct[of D p rk d1 d2] Cons.prems(1,3) d2 st by auto
    have E1: "insert (d1, d2) E \<subseteq> D \<times> D" using Cons.prems d2 by auto
    have "uf_rel (fst st1) = conn D (insert (d1, d2) E)"
      using rel1 Cons.prems(6) st conn_insert[OF Cons.prems(3) d2 Cons.prems(5)] by simp
    from Cons.IH[OF inv1 Cons.prems(2,3) ds E1 this]
    obtain st' where c: "compare_with dist hashes d1 ds st1 = ok st'" and inv': "uf_inv D st'"
      and rel': "uf_rel (fst st') = conn D (insert (d1, d2) E \<union> ({d1} \<times> set ds \<inter> similar dist hashes))"
      by blast
    have "(d1, d2) \<in> similar dist hashes" using True h1 h2 by (auto simp: similar_def)
    then have eq: "insert (d1, d2) E \<union> ({d1} \<times> set ds \<inter> similar dist hashes)
        = E \<union> ({d1} \<times> set (d2 # ds) \<inter> similar dist hashes)" by auto
    have "compare_with dist hashes d1 (d2 # ds) st = ok st'"
      using True h1 h2 u c by (simp add: bind_result_def ok_def)
    with inv' rel'[unfolded eq] show ?thesis by blast
  next
    case False
    from Cons.IH[OF Cons.prems(1,2,3) ds Cons.prems(5,6)]
    obtain st' where c: "compare_with dist hashes d1 ds st = ok st'" and inv': "uf_inv D st'"
      and rel': "uf_rel (fst st') = conn D (E \<union> ({d1} \<times> set ds \<inter> similar dist hashes))"
      by blast
    have "(d1, d2) \<notin> similar dist hashes" using False h1 h2 by (auto simp: similar_def)
    then have eq: "E \<union> ({d1} \<times> set ds \<inter> similar dist hashes)
        = E \<union> ({d1} \<times> set (d2 # ds) \<inter> similar dist hashes)" by auto
    have "compare_with dist hashes d1 (d2 # ds) st = ok st'"
      using False h1 h2 c by simp
    with inv' rel'[unfolded eq] show ?thesis by blast
  qed
qed

lemma compare_all_correct:
  assumes "uf_inv D st" and "D = fst ` set hashes" and "set ds \<subseteq> D"
    and "E \<subseteq> D \<times> D" and "uf_rel (fst st) = conn D E"
  shows "\<exists>st'. compare_all dist hashes ds st = ok st' \<and> uf_inv D st'
           \<and> uf_rel (fst st') = conn D (E \<union> (later_pairs ds \<inter> similar dist hashes))"
  using assms
proof (induction ds arbitrary: st E)
  case Nil
  then show ?case by (cases st) auto
next
  case (Cons d1 ds)
  have d1: "d1 \<in> D" and ds: "set ds \<subseteq> D" using Cons.prems by auto
  from compare_with_correct[OF Cons.prems(1,2) d1 ds Cons.prems(4,5), of dist]
  obtain st1 where c1: "compare_with dist hashes d1 ds st = ok st1" and inv1: "uf_inv D st1"
    and rel1: "uf_rel (fst st1) = conn D (E \<union> ({d1} \<times> set ds \<inter> similar dist hashes))"
    by blast
  have E1: "E \<union> ({d1} \<times> set ds \<inter> similar dist hashes) \<subseteq> D \<times> D"
    using Cons.prems(4) d1 ds by auto
  from Cons.IH[OF inv1 Cons.prems(2) ds E1 rel1]
  obtain st' where c: "compare_all dist hashes ds st1 = ok st'" and inv': "uf_inv D st'"
    and rel': "uf_rel (fst st') = conn D (E \<union> ({d1} \<times> set ds \<inter> similar dist hashes)
                  \<union> (later_pairs ds \<inter> similar dist hashes))"
    by blast
  have eq: "E \<union> ({d1} \<times> set ds \<inter> similar dist hashes) \<union> (later_pairs ds \<inter> similar dist hashes)
      = E \<union> (later_pairs (d1 # ds) \<inter> similar dist hashes)" by auto
  have "compare_all dist hashes (d1 # ds) st = ok st'"
    using c1 c by (simp add: bind_result_def ok_def)
  with inv' rel'[unfolded eq] show ?case by blast
qed

lemma later_pairs_sym:
  "distinct ds \<Longrightarrow> later_pairs ds \<union> (later_pairs ds)\<inverse> = {(a, b). a \<in> set ds \<and> b \<in> set ds \<and> a \<noteq> b}"
  by (induction ds) auto

lemma later_pairs_subset: "later_pairs ds \<subseteq> set ds \<times> set ds"
  by (induction ds) auto

lemma first_occ_snoc:
  "first_occ (xs @ [x]) = (if x \<in> set xs then first_occ xs else first_occ xs @ [x])"
  by (simp add: first_occ_def)

lemma first_occ_Nil: "first_occ [] = []"
  by (simp add: first_occ_def)

lemma set_first_occ: "set (first_occ xs) = set xs"
  by (simp add: first_occ_def)

lemma distinct_first_occ: "distinct (first_occ xs)"
  by (simp add: first_occ_def)

lemma dict_append_map:
  "distinct ks \<Longrightarrow>
   dict_append (map (\<lambda>k. (k, g k)) ks) k0 v =
     (if k0 \<in> set ks then map (\<lambda>k. (k, if k = k0 then g k @ [v] else g k)) ks
      else map (\<lambda>k. (k, g k)) ks @ [(k0, [v])])"
  by (induction ks) auto

lemma grouped_snoc:
  "grouped f (ds @ [d]) = dict_append (grouped f ds) (f d) d"
proof (cases "f d \<in> set (map f ds)")
  case True
  then have "grouped f (ds @ [d])
      = map (\<lambda>k. (k, if k = f d then filter (\<lambda>d. f d = k) ds @ [d] else filter (\<lambda>d. f d = k) ds))
          (first_occ (map f ds))"
    by (auto simp: grouped_def first_occ_snoc)
  also have "\<dots> = dict_append (grouped f ds) (f d) d"
    unfolding grouped_def
    using True dict_append_map[OF distinct_first_occ, of "\<lambda>k. filter (\<lambda>d. f d = k) ds" "map f ds" "f d" d]
    by (simp add: set_first_occ)
  finally show ?thesis .
next
  case False
  then have "\<forall>x\<in>set ds. f x \<noteq> f d" by (metis image_eqI list.set_map)
  then have nil: "filter (\<lambda>d'. f d' = f d) ds = []"
    by (simp add: filter_empty_conv)
  have "grouped f (ds @ [d])
      = map (\<lambda>k. (k, filter (\<lambda>d. f d = k) ds)) (first_occ (map f ds)) @ [(f d, [d])]"
    using False nil by (auto simp: grouped_def first_occ_snoc set_first_occ)
  also have "\<dots> = dict_append (grouped f ds) (f d) d"
    unfolding grouped_def
    using False dict_append_map[OF distinct_first_occ, of "\<lambda>k. filter (\<lambda>d. f d = k) ds" "map f ds" "f d" d]
    by (simp add: set_first_occ)
  finally show ?thesis .
qed

lemma fold_dict_append_grouped:
  "fold (\<lambda>d cl. dict_append cl (f d) d) ds [] = grouped f ds"
proof (induction ds rule: rev_induct)
  case Nil
  show ?case by (simp add: grouped_def first_occ_Nil)
next
  case (snoc d ds)
  then show ?case by (simp add: grouped_snoc)
qed

lemma group_by_root_fold:
  assumes "\<forall>d\<in>set ds. root_of p d (f d)"
  shows "\<exists>p'. group_by_root p ds cl = ok (p', fold (\<lambda>d cl. dict_append cl (f d) d) ds cl)
           \<and> same_roots p' p"
  using assms
proof (induction ds arbitrary: p cl)
  case Nil
  show ?case using same_roots_refl by auto
next
  case (Cons d ds)
  then have "root_of p d (f d)" by simp
  then obtain p1 where f1: "find_cluster p d = Some (Inr (p1, f d))" and s1: "same_roots p1 p"
    using find_cluster_root by blast
  have "\<forall>d\<in>set ds. root_of p1 d (f d)"
    using Cons.prems s1 by (simp add: same_roots_def)
  from Cons.IH[OF this, of "dict_append cl (f d) d"]
  obtain p' where g: "group_by_root p1 ds (dict_append cl (f d) d)
        = ok (p', fold (\<lambda>d cl. dict_append cl (f d) d) ds (dict_append cl (f d) d))"
    and s': "same_roots p' p1" by blast
  have "group_by_root p (d # ds) cl = ok (p', fold (\<lambda>d cl. dict_append cl (f d) d) (d # ds) cl)"
    using f1 g by (simp add: bind_result_def)
  moreover have "same_roots p' p" using s' s1 by (rule same_roots_trans)
  ultimately show ?case by blast
qed

lemma init_inv:
  "uf_inv (set ds) (map_of (map (\<lambda>d. (d, d)) ds), map_of (map (\<lambda>d. (d, 0)) ds))"
proof -
  have p: "map_of (map (\<lambda>d. (d, d)) ds) x = (if x \<in> set ds then Some x else None)" for x
    by (induction ds) auto
  have "dom (map_of (map (\<lambda>d. (d, d)) ds)) = set ds"
    by (auto simp: p dom_def)
  moreover have "dom (map_of (map (\<lambda>d. (d, 0::int)) ds)) = set ds"
    by (simp add: dom_map_of_conv_image_fst image_image)
  moreover have "\<forall>x\<in>set ds. \<exists>r. root_of (map_of (map (\<lambda>d. (d, d)) ds)) x r"
    using p by (auto intro!: exI root_of.root)
  ultimately show ?thesis by (simp add: uf_inv_def)
qed

lemma init_rel:
  "uf_rel (map_of (map (\<lambda>d. (d, d)) ds)) = conn (set ds) {}"
proof -
  have p: "map_of (map (\<lambda>d. (d, d)) ds) x = (if x \<in> set ds then Some x else None)" for x
    by (induction ds) auto
  have r: "root_of (map_of (map (\<lambda>d. (d, d)) ds)) x s \<longleftrightarrow> x \<in> set ds \<and> s = x" for x s
  proof
    assume h: "root_of (map_of (map (\<lambda>d. (d, d)) ds)) x s"
    then have "x \<in> set ds" using root_of_in_dom[OF h] by (auto simp: p dom_def split: if_splits)
    moreover from this have "s = x" using h p root_of_root_eq by metis
    ultimately show "x \<in> set ds \<and> s = x" by simp
  next
    assume "x \<in> set ds \<and> s = x"
    then show "root_of (map_of (map (\<lambda>d. (d, d)) ds)) x s" using p by (auto intro: root_of.root)
  qed
  show ?thesis by (auto simp: uf_rel_def conn_def r)
qed

text \<open>The shape of the result of the whole clustering pass.\<close>

lemma cluster_partition_grouped:
  fixes dist :: "'h \<Rightarrow> 'h \<Rightarrow> int" and hashes :: "'h hash_dict"
  defines "D \<equiv> map fst hashes"
  shows "\<exists>f. cluster_partition dist hashes = ok (multi_of (grouped f D), singletons_of (grouped f D))
           \<and> (\<forall>a\<in>set D. f a \<in> set D \<and> f (f a) = f a)
           \<and> (\<forall>a\<in>set D. \<forall>b\<in>set D.
                 f a = f b \<longleftrightarrow> (a, b) \<in> conn (set D) (later_pairs D \<inter> similar dist hashes))"
proof -
  let ?p0 = "map_of (map (\<lambda>d. (d, d)) D)" and ?r0 = "map_of (map (\<lambda>d. (d, 0::int)) D)"
  let ?E = "later_pairs D \<inter> similar dist hashes"
  have D: "set D = fst ` set hashes" by (simp add: D_def)
  have "uf_rel (fst (?p0, ?r0)) = conn (set D) {}" by (simp add: init_rel)
  from compare_all_correct[OF init_inv D subset_refl _ this, of dist]
  obtain st1 where c: "compare_all dist hashes D (?p0, ?r0) = ok st1" and inv1: "uf_inv (set D) st1"
    and rel1: "uf_rel (fst st1) = conn (set D) ({} \<union> ?E)"
    by blast
  obtain p1 rk1 where st1: "st1 = (p1, rk1)" by (cases st1)
  have "\<forall>x\<in>set D. \<exists>r. root_of p1 x r" using inv1 st1 by (simp add: uf_inv_def)
  then obtain f where f: "\<forall>x\<in>set D. root_of p1 x (f x)" by metis
  from group_by_root_fold[OF f, of "[]"]
  obtain p2 where g: "group_by_root p1 D [] = ok (p2, grouped f D)"
    by (auto simp: fold_dict_append_grouped)
  have res: "cluster_partition dist hashes = ok (multi_of (grouped f D), singletons_of (grouped f D))"
    using c g st1 by (simp add: cluster_partition_def D_def[symmetric] bind_result_def ok_def)
  have dom1: "dom p1 = set D" using inv1 st1 by (simp add: uf_inv_def)
  have roots: "f a \<in> set D \<and> f (f a) = f a" if "a \<in> set D" for a
  proof -
    have ra: "root_of p1 a (f a)" using f that by simp
    then have pr: "p1 (f a) = Some (f a)" by (rule root_of_is_root)
    then have in_D: "f a \<in> set D" using dom1 by auto
    then have "root_of p1 (f a) (f (f a))" using f by simp
    then have "f (f a) = f a" using pr by (rule root_of_root_eq[rotated])
    with in_D show ?thesis by simp
  qed
  have same: "f a = f b \<longleftrightarrow> (a, b) \<in> conn (set D) ?E" if "a \<in> set D" "b \<in> set D" for a b
  proof -
    have ra: "root_of p1 a (f a)" and rb: "root_of p1 b (f b)" using f that by simp_all
    have "(a, b) \<in> uf_rel p1 \<longleftrightarrow> f a = f b"
      using ra rb by (auto simp: uf_rel_def dest: root_of_det)
    then show ?thesis using rel1 st1 by simp
  qed
  show ?thesis using res roots same by blast
qed

lemma grouped_entry:
  assumes "(k, v) \<in> set (grouped f D)"
  shows "k \<in> f ` set D \<and> v = filter (\<lambda>d. f d = k) D"
  using assms by (auto simp: grouped_def set_first_occ)

lemma grouped_has_root:
  assumes "idem_on D f" and "(k, v) \<in> set (grouped f D)"
  shows "k \<in> set v"
proof -
  from grouped_entry[OF assms(2)] obtain a where a: "a \<in> set D" "k = f a"
    and v: "v = filter (\<lambda>d. f d = k) D" by auto
  then have "k \<in> set D" "f k = k" using assms(1) by (auto simp: idem_on_def)
  then show ?thesis using v by simp
qed

lemma grouped_single:
  assumes "idem_on D f" and "(k, v) \<in> set (grouped f D)" and "length v = 1"
  shows "v = [k]"
proof -
  have "k \<in> set v" using assms(1,2) by (rule grouped_has_root)
  with assms(3) show ?thesis by (cases v) auto
qed

lemma singletons_groups:
  assumes "idem_on D f"
  shows "map (\<lambda>d. [d]) (singletons_of (grouped f D))
         = map snd (filter (\<lambda>(k, v). length v = 1) (grouped f D))"
  unfolding singletons_of_def map_map
  by (rule map_cong[OF refl]) (use assms grouped_single in force)

lemma output_groups_mset:
  assumes "idem_on D f"
  shows "mset (output_groups (multi_of (grouped f D), singletons_of (grouped f D)))
         = mset (map snd (grouped f D))"
proof -
  let ?G = "grouped f D"
  have ne: "length v \<ge> 1" if "(k, v) \<in> set ?G" for k v
    using grouped_has_root[OF assms that] by (cases v) auto
  have "filter (\<lambda>(k, v). length v = 1) ?G = filter (\<lambda>e. \<not> (case e of (k, v) \<Rightarrow> length v > 1)) ?G"
    by (rule filter_cong[OF refl]) (use ne in fastforce)
  then have "mset (output_groups (multi_of ?G, singletons_of ?G))
      = mset (map snd (filter (\<lambda>(k, v). length v > 1) ?G))
        + mset (map snd (filter (\<lambda>e. \<not> (case e of (k, v) \<Rightarrow> length v > 1)) ?G))"
    by (simp add: output_groups_def singletons_groups[OF assms] multi_of_def)
  also have "\<dots> = mset (map snd ?G)"
    by (simp only: mset_map mset_filter image_mset_union[symmetric] multiset_partition[symmetric])
  finally show ?thesis .
qed

lemma concat_groups_mset:
  "distinct ks \<Longrightarrow>
   mset (concat (map (\<lambda>k. filter (\<lambda>d. f d = k) D) ks)) = mset (filter (\<lambda>d. f d \<in> set ks) D)"
proof (induction ks)
  case Nil
  show ?case by simp
next
  case (Cons k ks)
  then have k: "k \<notin> set ks" by simp
  have "mset (filter (\<lambda>d. f d = k) D) + mset (filter (\<lambda>d. f d \<in> set ks) D)
      = mset (filter (\<lambda>d. f d \<in> set (k # ks)) D)"
    using k by (intro multiset_eqI) auto
  with Cons show ?case by simp
qed

lemma grouped_concat_mset: "mset (concat (map snd (grouped f D))) = mset D"
proof -
  have "map snd (grouped f D) = map (\<lambda>k. filter (\<lambda>d. f d = k) D) (first_occ (map f D))"
    by (simp add: grouped_def comp_def)
  then have "mset (concat (map snd (grouped f D)))
      = mset (filter (\<lambda>d. f d \<in> set (first_occ (map f D))) D)"
    using concat_groups_mset[OF distinct_first_occ] by simp
  also have "\<dots> = mset D" by (simp add: set_first_occ)
  finally show ?thesis .
qed

lemma mset_concat_cong: "mset xss = mset yss \<Longrightarrow> mset (concat xss) = mset (concat yss)"
proof -
  assume eq: "mset xss = mset yss"
  have "mset (concat zss) = sum_mset (image_mset mset (mset zss))" for zss :: "'a list list"
    by (simp add: mset_concat flip: sum_mset_sum_list)
  then show ?thesis using eq by simp
qed

lemma output_concat_mset:
  assumes "idem_on D f"
  shows "mset (concat (output_groups (multi_of (grouped f D), singletons_of (grouped f D)))) = mset D"
  using mset_concat_cong[OF output_groups_mset[OF assms]] grouped_concat_mset by simp

lemma same_cluster_grouped:
  assumes "idem_on D f"
  shows "same_cluster (multi_of (grouped f D), singletons_of (grouped f D)) a b
         \<longleftrightarrow> a \<in> set D \<and> b \<in> set D \<and> f a = f b"
proof -
  let ?out = "(multi_of (grouped f D), singletons_of (grouped f D))"
  have "set (output_groups ?out) = snd ` set (grouped f D)"
    using output_groups_mset[OF assms] by (metis mset_eq_setD set_map)
  also have "\<dots> = (\<lambda>k. filter (\<lambda>d. f d = k) D) ` f ` set D"
    by (auto simp: grouped_def set_first_occ image_image)
  finally have "set (output_groups ?out) = (\<lambda>k. filter (\<lambda>d. f d = k) D) ` f ` set D" .
  then show ?thesis by (auto simp: same_cluster_def)
qed

lemma similar_inline:
  "{(x, y). \<exists>hx hy. map_of hashes x = Some hx \<and> map_of hashes y = Some hy \<and> dist hx hy \<le> 8}
   = similar dist hashes"
  by (simp add: similar_def HASH_THRESHOLD_def)

lemma similar_in_keys: "(a, b) \<in> similar dist hashes \<Longrightarrow> a \<in> fst ` set hashes \<and> b \<in> fst ` set hashes"
  by (auto simp: similar_def dest!: map_of_SomeD intro: rev_image_eqI)

lemma conn_similar:
  assumes dis: "distinct (map fst hashes)" and sym: "\<forall>x y. dist x y = dist y x"
  shows "conn (set (map fst hashes)) (later_pairs (map fst hashes) \<inter> similar dist hashes)
         = (similar dist hashes)\<^sup>* \<inter> set (map fst hashes) \<times> set (map fst hashes)"
proof -
  let ?D = "map fst hashes" and ?S = "similar dist hashes"
  let ?E = "later_pairs ?D \<inter> ?S"
  have ssym: "(b, a) \<in> ?S" if "(a, b) \<in> ?S" for a b
    using that sym by (auto simp: similar_def)
  have sdom: "a \<in> set ?D \<and> b \<in> set ?D" if "(a, b) \<in> ?S" for a b
    using similar_in_keys[OF that] by simp
  note lp = later_pairs_sym[OF dis]
  have "?E \<union> ?E\<inverse> = ?S - Id"
  proof (rule set_eqI, clarify)
    fix a b
    show "(a, b) \<in> ?E \<union> ?E\<inverse> \<longleftrightarrow> (a, b) \<in> ?S - Id"
    proof
      assume "(a, b) \<in> ?E \<union> ?E\<inverse>"
      then have "(a, b) \<in> later_pairs ?D \<union> (later_pairs ?D)\<inverse>" and "(a, b) \<in> ?S"
        using ssym by auto
      then show "(a, b) \<in> ?S - Id" using lp by auto
    next
      assume h: "(a, b) \<in> ?S - Id"
      then have "a \<in> set ?D" "b \<in> set ?D" "a \<noteq> b" using sdom by auto
      then have "(a, b) \<in> later_pairs ?D \<union> (later_pairs ?D)\<inverse>" using lp by blast
      then show "(a, b) \<in> ?E \<union> ?E\<inverse>" using h ssym by auto
    qed
  qed
  then have "(?E \<union> ?E\<inverse>)\<^sup>* = ?S\<^sup>*" by (simp add: rtrancl_r_diff_Id)
  then show ?thesis by (simp add: conn_def)
qed

text \<open>
  Claim C1. For every hash dictionary (distinct keys, symmetric distance) the clustering
  returns, and two domains lie in the same output group exactly when both are keys and a
  chain of keys links them whose consecutive hashes are at distance at most 8. The bound
  is inclusive: a pair at distance exactly 8 shares a group. Three keys at distances
  5, 6 and 15 share a group although the last distance exceeds the threshold.
\<close>

theorem clusters_are_connected_components:
  fixes dist :: "'h \<Rightarrow> 'h \<Rightarrow> int" and hashes :: "'h hash_dict"
  assumes "distinct (map fst hashes)" and "\<forall>x y. dist x y = dist y x"
  shows "\<exists>out. cluster_partition dist hashes = ok out \<and>
    (\<forall>a b. same_cluster out a b \<longleftrightarrow>
       a \<in> fst ` set hashes \<and> b \<in> fst ` set hashes \<and>
       (a, b) \<in> {(x, y). \<exists>hx hy. map_of hashes x = Some hx \<and> map_of hashes y = Some hy
                     \<and> dist hx hy \<le> 8}\<^sup>*) \<and>
    (\<forall>a b ha hb. map_of hashes a = Some ha \<and> map_of hashes b = Some hb \<and> dist ha hb = 8
       \<longrightarrow> same_cluster out a b) \<and>
    (\<forall>a b c ha hb hc. map_of hashes a = Some ha \<and> map_of hashes b = Some hb
         \<and> map_of hashes c = Some hc \<and> dist ha hb = 5 \<and> dist hb hc = 6 \<and> dist ha hc = 15
       \<longrightarrow> same_cluster out a b \<and> same_cluster out b c \<and> same_cluster out a c)"
proof -
  let ?D = "map fst hashes" and ?S = "similar dist hashes"
  from cluster_partition_grouped[of dist hashes]
  obtain f where res: "cluster_partition dist hashes = ok (multi_of (grouped f ?D), singletons_of (grouped f ?D))"
    and idem: "idem_on ?D f"
    and same: "\<forall>a\<in>set ?D. \<forall>b\<in>set ?D. f a = f b \<longleftrightarrow> (a, b) \<in> conn (set ?D) (later_pairs ?D \<inter> ?S)"
    unfolding idem_on_def by blast
  let ?out = "(multi_of (grouped f ?D), singletons_of (grouped f ?D))"
  have iff: "same_cluster ?out a b \<longleftrightarrow>
       a \<in> fst ` set hashes \<and> b \<in> fst ` set hashes \<and> (a, b) \<in> ?S\<^sup>*" for a b
    using same_cluster_grouped[OF idem, of a b] same conn_similar[OF assms] by auto
  have edge: "same_cluster ?out a b" if "(a, b) \<in> ?S" for a b
    using iff[of a b] that similar_in_keys[OF that] by auto
  have chain: "same_cluster ?out a c" if "(a, b) \<in> ?S" "(b, c) \<in> ?S" for a b c
    using iff[of a c] that similar_in_keys[OF that(1)] similar_in_keys[OF that(2)] by auto
  have p1: "\<forall>a b. same_cluster ?out a b \<longleftrightarrow>
       a \<in> fst ` set hashes \<and> b \<in> fst ` set hashes \<and>
       (a, b) \<in> {(x, y). \<exists>hx hy. map_of hashes x = Some hx \<and> map_of hashes y = Some hy
                     \<and> dist hx hy \<le> 8}\<^sup>*"
    using iff by (simp only: similar_inline) simp
  have p2: "\<forall>a b ha hb. map_of hashes a = Some ha \<and> map_of hashes b = Some hb \<and> dist ha hb = 8
       \<longrightarrow> same_cluster ?out a b"
    by (intro allI impI edge) (auto simp: similar_def HASH_THRESHOLD_def)
  have p3: "\<forall>a b c ha hb hc. map_of hashes a = Some ha \<and> map_of hashes b = Some hb
         \<and> map_of hashes c = Some hc \<and> dist ha hb = 5 \<and> dist hb hc = 6 \<and> dist ha hc = 15
       \<longrightarrow> same_cluster ?out a b \<and> same_cluster ?out b c \<and> same_cluster ?out a c"
  proof (intro allI impI)
    fix a b c ha hb hc
    assume h: "map_of hashes a = Some ha \<and> map_of hashes b = Some hb
         \<and> map_of hashes c = Some hc \<and> dist ha hb = 5 \<and> dist hb hc = 6 \<and> dist ha hc = 15"
    then have "(a, b) \<in> ?S" "(b, c) \<in> ?S" by (auto simp: similar_def HASH_THRESHOLD_def)
    then show "same_cluster ?out a b \<and> same_cluster ?out b c \<and> same_cluster ?out a c"
      using edge chain by blast
  qed
  show ?thesis using res p1 p2 p3 by blast
qed

lemma scenario_eval:
  "cluster_partition scenario_dist scenario_hashes = ok ([(''A'', [''A'', ''B'', ''C''])], [])"
  by code_simp

theorem clusters_are_connected_components_witness:
  "distinct (map fst scenario_hashes) \<and> (\<forall>x y. scenario_dist x y = scenario_dist y x)
   \<and> scenario_dist 0 1 = 5 \<and> scenario_dist 1 2 = 6 \<and> scenario_dist 0 2 = 15
   \<and> cluster_partition scenario_dist scenario_hashes = ok ([(''A'', [''A'', ''B'', ''C''])], [])
   \<and> same_cluster ([(''A'', [''A'', ''B'', ''C''])], []) ''A'' ''C''
   \<and> (''A'', ''C'') \<in> {(x, y). \<exists>hx hy. map_of scenario_hashes x = Some hx
          \<and> map_of scenario_hashes y = Some hy \<and> scenario_dist hx hy \<le> 8}\<^sup>*"
proof -
  have d: "distinct (map fst scenario_hashes)" by (simp add: scenario_hashes_def)
  have s: "\<forall>x y. scenario_dist x y = scenario_dist y x"
    by (simp add: scenario_dist_def add.commute eq_commute)
  have v: "scenario_dist 0 1 = 5 \<and> scenario_dist 1 2 = 6 \<and> scenario_dist 0 2 = 15"
    by (simp add: scenario_dist_def)
  have e: "cluster_partition scenario_dist scenario_hashes = ok ([(''A'', [''A'', ''B'', ''C''])], [])"
    by code_simp
  have sc: "same_cluster ([(''A'', [''A'', ''B'', ''C''])], []) ''A'' ''C''"
    by (simp add: same_cluster_def output_groups_def)
  from clusters_are_connected_components[OF d s] e
  have "same_cluster ([(''A'', [''A'', ''B'', ''C''])], []) ''A'' ''C'' \<longleftrightarrow>
       ''A'' \<in> fst ` set scenario_hashes \<and> ''C'' \<in> fst ` set scenario_hashes \<and>
       (''A'', ''C'') \<in> {(x, y). \<exists>hx hy. map_of scenario_hashes x = Some hx
          \<and> map_of scenario_hashes y = Some hy \<and> scenario_dist hx hy \<le> 8}\<^sup>*"
    by (auto simp: ok_def)
  with sc d s v e show ?thesis by blast
qed

subsection \<open>The Hamming distance as the distance\<close>

lemma hamming_sym: "hamming xs ys = hamming ys xs"
proof -
  have "length (filter (\<lambda>(x, y). x \<noteq> y) (zip xs ys)) = length (filter (\<lambda>(x, y). x \<noteq> y) (zip ys xs))"
  proof (induction xs arbitrary: ys)
    case Nil
    show ?case by simp
  next
    case (Cons x xs)
    show ?case using Cons.IH by (cases ys) auto
  qed
  then show ?thesis by (simp add: hamming_def)
qed

text \<open>
  The bound is inclusive: distance 8 joins two domains, distance 9 does not; and a chain
  of two links of distance 8 joins three domains whose ends are 16 apart.
\<close>

lemma threshold_examples:
  "hamming bits_a bits_b = 8"
  "hamming bits_b bits_c = 8"
  "hamming bits_a bits_c = 16"
  "hamming bits_a bits_d = 9"
  "cluster_partition hamming [(''a.com'', bits_a), (''b.com'', bits_b)]
     = ok ([(''a.com'', [''a.com'', ''b.com''])], [])"
  "cluster_partition hamming [(''a.com'', bits_a), (''d.com'', bits_d)]
     = ok ([], [''a.com'', ''d.com''])"
  "cluster_partition hamming chain_hashes
     = ok ([(''a.com'', [''a.com'', ''b.com'', ''c.com''])], [])"
  by code_simp+

subsection \<open>The partition and its neighbours\<close>

lemma distinct_concat_index:
  "distinct (concat gs) \<Longrightarrow> i < length gs \<Longrightarrow> j < length gs \<Longrightarrow>
   d \<in> set (gs ! i) \<Longrightarrow> d \<in> set (gs ! j) \<Longrightarrow> i = j"
proof (induction gs arbitrary: i j)
  case Nil
  then show ?case by simp
next
  case (Cons g gs)
  have dc: "set g \<inter> set (concat gs) = {}" using Cons.prems(1) by simp
  have disj: "set g \<inter> set (gs ! k) = {}" if "k < length gs" for k
  proof -
    have "gs ! k \<in> set gs" using that by (rule nth_mem)
    then have "set (gs ! k) \<subseteq> set (concat gs)" by auto
    with dc show ?thesis by blast
  qed
  show ?case
  proof (cases i)
    case i0: 0
    show ?thesis
    proof (cases j)
      case 0
      with i0 show ?thesis by simp
    next
      case (Suc j')
      with i0 Cons.prems disj[of j'] show ?thesis by auto
    qed
  next
    case (Suc i')
    show ?thesis
    proof (cases j)
      case 0
      with Suc Cons.prems disj[of i'] show ?thesis by auto
    next
      case j: (Suc j')
      with Suc Cons.prems Cons.IH[of i' j'] show ?thesis by auto
    qed
  qed
qed

text \<open>
  Claim C5. For every hash dictionary (distinct keys) the clustering returns, and its
  groups partition the keys: listing all groups one after the other gives every key once
  and nothing else, so each key lies in exactly one group and a domain that is not a
  key lies in none.
\<close>

theorem clusters_partition_the_domains:
  fixes dist :: "'h \<Rightarrow> 'h \<Rightarrow> int" and hashes :: "'h hash_dict"
  assumes "distinct (map fst hashes)"
  shows "\<exists>out. cluster_partition dist hashes = ok out \<and>
    mset (concat (output_groups out)) = mset (map fst hashes) \<and>
    distinct (concat (output_groups out)) \<and>
    (\<forall>d. d \<in> fst ` set hashes \<longrightarrow>
       (\<exists>!i. i < length (output_groups out) \<and> d \<in> set (output_groups out ! i))) \<and>
    (\<forall>d. d \<notin> fst ` set hashes \<longrightarrow> (\<forall>g\<in>set (output_groups out). d \<notin> set g))"
proof -
  let ?D = "map fst hashes"
  from cluster_partition_grouped[of dist hashes]
  obtain f where res: "cluster_partition dist hashes = ok (multi_of (grouped f ?D), singletons_of (grouped f ?D))"
    and idem: "idem_on ?D f"
    unfolding idem_on_def by blast
  let ?out = "(multi_of (grouped f ?D), singletons_of (grouped f ?D))"
  let ?gs = "output_groups ?out"
  have m: "mset (concat ?gs) = mset ?D" using idem by (rule output_concat_mset)
  have dis: "distinct (concat ?gs)" using m assms by (metis distinct_count_atmost_1 mset_eq_setD count_mset)
  have st: "set (concat ?gs) = fst ` set hashes" using m by (metis mset_eq_setD set_map)
  have ex1: "\<exists>!i. i < length ?gs \<and> d \<in> set (?gs ! i)" if "d \<in> fst ` set hashes" for d
  proof -
    from that st have "d \<in> set (concat ?gs)" by simp
    then obtain g where "g \<in> set ?gs" "d \<in> set g" by auto
    then obtain i where "i < length ?gs" "d \<in> set (?gs ! i)" by (auto simp: in_set_conv_nth)
    then show ?thesis using distinct_concat_index[OF dis] by blast
  qed
  have none: "\<forall>g\<in>set ?gs. d \<notin> set g" if "d \<notin> fst ` set hashes" for d
    using that st by auto
  show ?thesis using res m dis ex1 none by blast
qed

text \<open>
  Claim C10. In every clustering output (distinct keys, symmetric distance) each member
  of a multi-member cluster has another member of the same cluster whose hash is at
  distance at most 8 from its own.
\<close>

theorem cluster_member_has_near_neighbour:
  fixes dist :: "'h \<Rightarrow> 'h \<Rightarrow> int" and hashes :: "'h hash_dict"
  assumes "distinct (map fst hashes)" and "\<forall>x y. dist x y = dist y x"
  shows "\<exists>out. cluster_partition dist hashes = ok out \<and>
    (\<forall>(root, members)\<in>set (fst out). \<forall>a\<in>set members. \<exists>b\<in>set members. b \<noteq> a \<and>
       (\<exists>ha hb. map_of hashes a = Some ha \<and> map_of hashes b = Some hb \<and> dist ha hb \<le> 8))"
proof -
  let ?D = "map fst hashes" and ?S = "similar dist hashes"
  from cluster_partition_grouped[of dist hashes]
  obtain f where res: "cluster_partition dist hashes = ok (multi_of (grouped f ?D), singletons_of (grouped f ?D))"
    and same: "\<forall>a\<in>set ?D. \<forall>b\<in>set ?D. f a = f b \<longleftrightarrow> (a, b) \<in> conn (set ?D) (later_pairs ?D \<inter> ?S)"
    by blast
  note cs = conn_similar[OF assms]
  have near: "\<exists>b\<in>set members. b \<noteq> a \<and>
       (\<exists>ha hb. map_of hashes a = Some ha \<and> map_of hashes b = Some hb \<and> dist ha hb \<le> 8)"
    if e: "(root, members) \<in> set (multi_of (grouped f ?D))" and a: "a \<in> set members"
    for root members a
  proof -
    from e have g: "(root, members) \<in> set (grouped f ?D)" and len: "length members > 1"
      by (auto simp: multi_of_def)
    have mem: "members = filter (\<lambda>d. f d = root) ?D" using grouped_entry[OF g] by simp
    then have dm: "distinct members" using assms(1) by simp
    from len obtain x y rest where xy: "members = x # y # rest"
      by (cases members; cases "tl members") auto
    with dm have "x \<noteq> y" by simp
    have "\<exists>b\<in>set members. b \<noteq> a"
    proof (cases "a = x")
      case True
      have "y \<in> set members" using xy by simp
      moreover have "y \<noteq> a" using True \<open>x \<noteq> y\<close> by simp
      ultimately show ?thesis by (rule rev_bexI)
    next
      case False
      have "x \<in> set members" using xy by simp
      moreover have "x \<noteq> a" using False by simp
      ultimately show ?thesis by (rule rev_bexI)
    qed
    then obtain b where b: "b \<in> set members" "b \<noteq> a" by blast
    have aD: "a \<in> set ?D" "f a = root" and bD: "b \<in> set ?D" "f b = root"
      using a b mem by auto
    have "f a = f b" using aD bD by simp
    then have "(a, b) \<in> conn (set ?D) (later_pairs ?D \<inter> ?S)"
      using same aD(1) bD(1) by blast
    then have "(a, b) \<in> ?S\<^sup>*" unfolding cs by blast
    then have "(a, b) \<in> (?S - Id)\<^sup>*" by (simp only: rtrancl_r_diff_Id)
    then obtain c where c: "(a, c) \<in> ?S - Id" using b(2) by (metis converse_rtranclE)
    then have cS: "(a, c) \<in> ?S" and ca: "c \<noteq> a" by auto
    have cD: "c \<in> set ?D" using similar_in_keys[OF cS] by simp
    have "(a, c) \<in> ?S\<^sup>*" using cS by (rule r_into_rtrancl)
    then have "(a, c) \<in> conn (set ?D) (later_pairs ?D \<inter> ?S)"
      unfolding cs using aD(1) cD by blast
    then have "f a = f c" using same aD(1) cD by blast
    then have "c \<in> set members" using mem cD aD by simp
    moreover have "\<exists>ha hb. map_of hashes a = Some ha \<and> map_of hashes c = Some hb \<and> dist ha hb \<le> 8"
      using cS by (simp add: similar_def HASH_THRESHOLD_def)
    ultimately show ?thesis using ca by blast
  qed
  have "\<forall>(root, members)\<in>set (fst (multi_of (grouped f ?D), singletons_of (grouped f ?D))).
      \<forall>a\<in>set members. \<exists>b\<in>set members. b \<noteq> a \<and>
       (\<exists>ha hb. map_of hashes a = Some ha \<and> map_of hashes b = Some hb \<and> dist ha hb \<le> 8)"
  proof (clarify)
    fix root members a
    assume "(root, members) \<in> set (fst (multi_of (grouped f ?D), singletons_of (grouped f ?D)))"
      and a: "a \<in> set members"
    then have "(root, members) \<in> set (multi_of (grouped f ?D))" by simp
    then show "\<exists>b\<in>set members. b \<noteq> a \<and>
       (\<exists>ha hb. map_of hashes a = Some ha \<and> map_of hashes b = Some hb \<and> dist ha hb \<le> 8)"
      using a by (rule near)
  qed
  with res show ?thesis by (intro exI[of _ "(multi_of (grouped f ?D), singletons_of (grouped f ?D))"] conjI)
qed

theorem cluster_member_has_near_neighbour_witness:
  "distinct (map fst chain_hashes) \<and> (\<forall>x y. hamming x y = hamming y x)
   \<and> cluster_partition hamming chain_hashes = ok ([(''a.com'', [''a.com'', ''b.com'', ''c.com''])], [])
   \<and> (\<exists>b\<in>set [''a.com'', ''b.com'', ''c.com'']. b \<noteq> ''c.com'' \<and>
         (\<exists>ha hb. map_of chain_hashes ''c.com'' = Some ha \<and> map_of chain_hashes b = Some hb
            \<and> hamming ha hb \<le> 8))"
proof -
  have d: "distinct (map fst chain_hashes)" by (simp add: chain_hashes_def)
  have s: "\<forall>x y. hamming x y = hamming y x" using hamming_sym by blast
  have e: "cluster_partition hamming chain_hashes = ok ([(''a.com'', [''a.com'', ''b.com'', ''c.com''])], [])"
    by (rule threshold_examples)
  from cluster_member_has_near_neighbour[OF d s]
  obtain out where o: "cluster_partition hamming chain_hashes = ok out"
    and n: "\<forall>(root, members)\<in>set (fst out). \<forall>a\<in>set members. \<exists>b\<in>set members. b \<noteq> a \<and>
       (\<exists>ha hb. map_of chain_hashes a = Some ha \<and> map_of chain_hashes b = Some hb
          \<and> hamming ha hb \<le> 8)"
    by blast
  from o e have "out = ([(''a.com'', [''a.com'', ''b.com'', ''c.com''])], [])" by (simp add: ok_def)
  with n have "\<forall>a\<in>set [''a.com'', ''b.com'', ''c.com'']. \<exists>b\<in>set [''a.com'', ''b.com'', ''c.com'']. b \<noteq> a \<and>
       (\<exists>ha hb. map_of chain_hashes a = Some ha \<and> map_of chain_hashes b = Some hb
          \<and> hamming ha hb \<le> 8)"
    by simp
  then have "\<exists>b\<in>set [''a.com'', ''b.com'', ''c.com'']. b \<noteq> ''c.com'' \<and>
       (\<exists>ha hb. map_of chain_hashes ''c.com'' = Some ha \<and> map_of chain_hashes b = Some hb
          \<and> hamming ha hb \<le> 8)"
    by (rule bspec) simp
  with d s e show ?thesis by blast
qed

theorem clusters_partition_the_domains_witness:
  "distinct (map fst scenario_hashes)
   \<and> cluster_partition scenario_dist scenario_hashes = ok ([(''A'', [''A'', ''B'', ''C''])], [])
   \<and> mset (concat (output_groups ([(''A'', [''A'', ''B'', ''C''])], []))) = mset (map fst scenario_hashes)
   \<and> (\<exists>!i. i < length (output_groups ([(''A'', [''A'', ''B'', ''C''])], []))
            \<and> ''B'' \<in> set (output_groups ([(''A'', [''A'', ''B'', ''C''])], []) ! i))"
proof -
  have d: "distinct (map fst scenario_hashes)" by (simp add: scenario_hashes_def)
  have e: "cluster_partition scenario_dist scenario_hashes = ok ([(''A'', [''A'', ''B'', ''C''])], [])"
    by (rule scenario_eval)
  have k: "''B'' \<in> fst ` set scenario_hashes" by (simp add: scenario_hashes_def)
  from clusters_partition_the_domains[OF d, of scenario_dist] e k
  show ?thesis using d by (auto simp: ok_def)
qed

subsection \<open>Order of the report\<close>

lemma grouped_nonempty: "(k, v) \<in> set (grouped f D) \<Longrightarrow> v \<noteq> []"
proof -
  assume "(k, v) \<in> set (grouped f D)"
  then have "k \<in> f ` set D" and "v = filter (\<lambda>d. f d = k) D"
    using grouped_entry by blast+
  then show ?thesis by (auto simp: filter_empty_conv)
qed

lemma dict_append_heads:
  "\<forall>(k, v)\<in>set G. v \<noteq> [] \<Longrightarrow>
   map (\<lambda>(r, ms). hd ms) (dict_append G k d)
     = map (\<lambda>(r, ms). hd ms) G @ (if k \<in> fst ` set G then [] else [d])"
  by (induction G) (auto simp: rev_image_eqI)

lemma grouped_heads_subseq: "subseq (map (\<lambda>(r, ms). hd ms) (grouped f D)) D"
proof (induction D rule: rev_induct)
  case Nil
  show ?case by (simp add: grouped_def first_occ_Nil)
next
  case (snoc d D)
  have ne: "\<forall>(k, v)\<in>set (grouped f D). v \<noteq> []" using grouped_nonempty by blast
  have "map (\<lambda>(r, ms). hd ms) (grouped f (D @ [d]))
      = map (\<lambda>(r, ms). hd ms) (grouped f D) @ (if f d \<in> fst ` set (grouped f D) then [] else [d])"
    by (simp only: grouped_snoc dict_append_heads[OF ne])
  moreover have "subseq (if f d \<in> fst ` set (grouped f D) then [] else [d]) [d]" by simp
  ultimately show ?case using snoc.IH by (simp only: list_emb_append_mono)
qed

lemma multi_heads_subseq: "subseq (map (\<lambda>(r, ms). hd ms) (multi_of (grouped f D))) D"
proof -
  have "subseq (multi_of (grouped f D)) (grouped f D)" by (simp add: multi_of_def)
  then have "subseq (map (\<lambda>(r, ms). hd ms) (multi_of (grouped f D))) (map (\<lambda>(r, ms). hd ms) (grouped f D))"
    by (rule subseq_map)
  then show ?thesis using grouped_heads_subseq by (rule subseq_order.trans)
qed

lemma sorted_clusters_sorted:
  "sorted (map (\<lambda>(root, members). - int (length members)) (sorted_clusters cl))"
  by (simp add: sorted_clusters_def)

lemma sorted_clusters_stable:
  "filter (\<lambda>(root, members). length members = n) (sorted_clusters cl)
   = filter (\<lambda>(root, members). length members = n) cl"
proof -
  let ?key = "\<lambda>(root :: string, members :: string list). - int (length members)"
  have eq: "(\<lambda>(root :: string, members :: string list). length members = n) = (\<lambda>e. ?key e = - int n)"
    by (auto simp: fun_eq_iff)
  show ?thesis unfolding sorted_clusters_def eq by (rule sort_key_stable)
qed

text \<open>The partition does not depend on the order of the keys of the hash dictionary.\<close>

lemma same_mapping:
  assumes d1: "distinct (map fst h1)" and m: "mset h1 = mset h2"
  shows "distinct (map fst h2)" and "set (map fst h1) = set (map fst h2)" and "map_of h1 = map_of h2"
proof -
  have mk: "mset (map fst h1) = mset (map fst h2)" using m by (metis mset_map)
  show d2: "distinct (map fst h2)" using d1 mk by (metis mset_eq_imp_distinct_iff)
  show "set (map fst h1) = set (map fst h2)" using mk by (rule mset_eq_setD)
  have s: "set h1 = set h2" using m by (rule mset_eq_setD)
  show "map_of h1 = map_of h2"
  proof
    fix k
    show "map_of h1 k = map_of h2 k"
    proof (cases "map_of h1 k")
      case None
      then have "k \<notin> fst ` set h2" using s by (simp add: map_of_eq_None_iff)
      then have "map_of h2 k = None" by (simp add: map_of_eq_None_iff)
      with None show ?thesis by simp
    next
      case (Some v)
      then have "(k, v) \<in> set h2" using s d1 by simp
      then have "map_of h2 k = Some v" using d2 by simp
      with Some show ?thesis by simp
    qed
  qed
qed

lemma sorted_groups_grouped:
  "sorted_groups (grouped f D) = map (\<lambda>k. sort (filter (\<lambda>d. f d = k) D)) (first_occ (map f D))"
  by (simp add: sorted_groups_def grouped_def comp_def)

lemma distinct_sorted_groups: "distinct (sorted_groups (grouped f D))"
proof -
  have "inj_on (\<lambda>k. sort (filter (\<lambda>d. f d = k) D)) (f ` set D)"
  proof (rule inj_onI)
    fix k k' assume k: "k \<in> f ` set D" and k': "k' \<in> f ` set D"
      and eq: "sort (filter (\<lambda>d. f d = k) D) = sort (filter (\<lambda>d. f d = k') D)"
    from k obtain a where a: "a \<in> set D" "f a = k" by auto
    then have "a \<in> set (sort (filter (\<lambda>d. f d = k) D))" by simp
    then have "a \<in> set (sort (filter (\<lambda>d. f d = k') D))" using eq by simp
    then show "k = k'" using a by simp
  qed
  then show ?thesis
    unfolding sorted_groups_grouped by (simp add: distinct_map distinct_first_occ set_first_occ)
qed

lemma set_sorted_groups:
  "set (sorted_groups (grouped f D)) = (\<lambda>a. sort (filter (\<lambda>d. f d = f a) D)) ` set D"
  unfolding sorted_groups_grouped by (auto simp: set_first_occ image_image)

lemma sorted_groups_same:
  assumes dD: "distinct D" and dD': "distinct D'" and sD: "set D = set D'"
    and rel: "\<And>a b. a \<in> set D \<Longrightarrow> b \<in> set D \<Longrightarrow> f a = f b \<longleftrightarrow> f' a = f' b"
  shows "mset (sorted_groups (grouped f D)) = mset (sorted_groups (grouped f' D'))"
proof -
  have cls: "sort (filter (\<lambda>d. f d = f a) D) = sort (filter (\<lambda>d. f' d = f' a) D')" if a: "a \<in> set D" for a
  proof (rule sorted_distinct_set_unique)
    show "sorted (sort (filter (\<lambda>d. f d = f a) D))" by simp
    show "distinct (sort (filter (\<lambda>d. f d = f a) D))" using dD by simp
    show "sorted (sort (filter (\<lambda>d. f' d = f' a) D'))" by simp
    show "distinct (sort (filter (\<lambda>d. f' d = f' a) D'))" using dD' by simp
    show "set (sort (filter (\<lambda>d. f d = f a) D)) = set (sort (filter (\<lambda>d. f' d = f' a) D'))"
      using rel[OF _ a] rel[OF a] sD by auto
  qed
  have "set (sorted_groups (grouped f D)) = set (sorted_groups (grouped f' D'))"
    unfolding set_sorted_groups using cls sD by (auto intro!: image_cong)
  then show ?thesis
    using distinct_sorted_groups[of f D] distinct_sorted_groups[of f' D']
    by (simp add: set_eq_iff_mset_eq_distinct)
qed

lemma sorted_groups_multi:
  "sorted_groups (multi_of cl) = filter (\<lambda>g. length g > 1) (sorted_groups cl)"
  by (induction cl) (auto simp: sorted_groups_def multi_of_def)

lemma singleton_groups_sorted:
  assumes "idem_on D f"
  shows "map (\<lambda>d. [d]) (singletons_of (grouped f D))
         = filter (\<lambda>g. length g = 1) (sorted_groups (grouped f D))"
proof -
  have "map snd (filter (\<lambda>(k, v). length v = 1) cl) = filter (\<lambda>g. length g = 1) (sorted_groups cl)"
    for cl :: cluster_dict
  proof (induction cl)
    case Nil
    show ?case by (simp add: sorted_groups_def)
  next
    case (Cons e cl)
    obtain k v where e: "e = (k, v)" by (cases e)
    have "length v = 1 \<Longrightarrow> sort v = v" by (cases v) auto
    then show ?case using Cons by (auto simp: e sorted_groups_def)
  qed
  then show ?thesis using singletons_groups[OF assms] by simp
qed

lemma partition_independent_of_key_order:
  fixes dist :: "'h \<Rightarrow> 'h \<Rightarrow> int"
  assumes d1: "distinct (map fst h1)" and m: "mset h1 = mset h2"
    and sym: "\<forall>x y. dist x y = dist y x"
  shows "\<exists>out1 out2. cluster_partition dist h1 = ok out1 \<and> cluster_partition dist h2 = ok out2
    \<and> mset (sorted_groups (fst out1)) = mset (sorted_groups (fst out2))
    \<and> sort (snd out1) = sort (snd out2)"
proof -
  let ?D1 = "map fst h1" and ?D2 = "map fst h2"
  note sm = same_mapping[OF d1 m]
  have S: "similar dist h1 = similar dist h2" by (simp add: similar_def sm(3))
  from cluster_partition_grouped[of dist h1]
  obtain f1 where r1: "cluster_partition dist h1 = ok (multi_of (grouped f1 ?D1), singletons_of (grouped f1 ?D1))"
    and i1: "idem_on ?D1 f1"
    and e1: "\<forall>a\<in>set ?D1. \<forall>b\<in>set ?D1. f1 a = f1 b \<longleftrightarrow> (a, b) \<in> conn (set ?D1) (later_pairs ?D1 \<inter> similar dist h1)"
    unfolding idem_on_def by blast
  from cluster_partition_grouped[of dist h2]
  obtain f2 where r2: "cluster_partition dist h2 = ok (multi_of (grouped f2 ?D2), singletons_of (grouped f2 ?D2))"
    and i2: "idem_on ?D2 f2"
    and e2: "\<forall>a\<in>set ?D2. \<forall>b\<in>set ?D2. f2 a = f2 b \<longleftrightarrow> (a, b) \<in> conn (set ?D2) (later_pairs ?D2 \<inter> similar dist h2)"
    unfolding idem_on_def by blast
  have c1: "conn (set ?D1) (later_pairs ?D1 \<inter> similar dist h1) = (similar dist h1)\<^sup>* \<inter> set ?D1 \<times> set ?D1"
    using d1 sym by (rule conn_similar)
  have c2: "conn (set ?D2) (later_pairs ?D2 \<inter> similar dist h2) = (similar dist h2)\<^sup>* \<inter> set ?D2 \<times> set ?D2"
    using sm(1) sym by (rule conn_similar)
  have rel: "f1 a = f1 b \<longleftrightarrow> f2 a = f2 b" if "a \<in> set ?D1" "b \<in> set ?D1" for a b
  proof -
    have "f1 a = f1 b \<longleftrightarrow> (a, b) \<in> (similar dist h1)\<^sup>* \<inter> set ?D1 \<times> set ?D1"
      using e1 that c1 by blast
    moreover have "f2 a = f2 b \<longleftrightarrow> (a, b) \<in> (similar dist h2)\<^sup>* \<inter> set ?D2 \<times> set ?D2"
      using e2 that sm(2) c2 by blast
    ultimately show ?thesis using S sm(2) by simp
  qed
  have g: "mset (sorted_groups (grouped f1 ?D1)) = mset (sorted_groups (grouped f2 ?D2))"
    using d1 sm(1) sm(2) rel by (rule sorted_groups_same)
  have multi: "mset (sorted_groups (multi_of (grouped f1 ?D1))) = mset (sorted_groups (multi_of (grouped f2 ?D2)))"
    unfolding sorted_groups_multi mset_filter g ..
  have "mset (map (\<lambda>d. [d]) (singletons_of (grouped f1 ?D1)))
      = mset (map (\<lambda>d. [d]) (singletons_of (grouped f2 ?D2)))"
    unfolding singleton_groups_sorted[OF i1] singleton_groups_sorted[OF i2] mset_filter g ..
  then have "image_mset hd (image_mset (\<lambda>d. [d]) (mset (singletons_of (grouped f1 ?D1))))
      = image_mset hd (image_mset (\<lambda>d. [d]) (mset (singletons_of (grouped f2 ?D2))))" by simp
  then have "mset (singletons_of (grouped f1 ?D1)) = mset (singletons_of (grouped f2 ?D2))"
    by (simp add: multiset.map_comp comp_def)
  then have single: "sort (singletons_of (grouped f1 ?D1)) = sort (singletons_of (grouped f2 ?D2))"
    by (intro properties_for_sort) simp_all
  let ?o1 = "(multi_of (grouped f1 ?D1), singletons_of (grouped f1 ?D1))"
  let ?o2 = "(multi_of (grouped f2 ?D2), singletons_of (grouped f2 ?D2))"
  have "cluster_partition dist h1 = ok ?o1 \<and> cluster_partition dist h2 = ok ?o2
    \<and> mset (sorted_groups (fst ?o1)) = mset (sorted_groups (fst ?o2))
    \<and> sort (snd ?o1) = sort (snd ?o2)"
    using r1 r2 multi single by simp
  then show ?thesis by blast
qed

lemma domain_line_fun: "domain_line = (\<lambda>d. ''  '' @ d @ newline)"
  by (simp add: fun_eq_iff domain_line_def)

lemma report_as_text:
  "report n (cl, ss) = report_text n (sorted_groups (sorted_clusters cl)) (sort ss)"
proof -
  have len: "length (sorted_clusters cl) = length cl" by (simp add: sorted_clusters_def)
  have sec: "map cluster_section (zip [1 ..< Suc (length cl)] (sorted_clusters cl))
    = map (\<lambda>(i, ms).
           ''=== Cluster '' @ str_nat i @ '' ('' @ str_nat (length ms) @ '' logos) ==='' @ newline
           @ concat (map (\<lambda>d. ''  '' @ d @ newline) ms)
           @ newline)
         (zip [1 ..< Suc (length cl)] (sorted_groups (sorted_clusters cl)))"
    unfolding sorted_groups_def zip_map2
    by (simp add: cluster_section_def domain_line_fun case_prod_unfold)
  have thr: "str_nat (nat HASH_THRESHOLD) = ''8''" by code_simp
  show ?thesis
    unfolding report_def report_text_def prod.case sec thr
    by (simp add: sorted_groups_def len domain_line_fun)
qed

lemma sorted_groups_filter:
  "filter (\<lambda>ms. length ms = n) (sorted_groups cl)
   = map sort (filter (\<lambda>ms. length ms = n) (map snd cl))"
proof (induction cl)
  case Nil
  show ?case by (simp add: sorted_groups_def)
next
  case (Cons e cl)
  obtain r m where e: "e = (r, m)" by (cases e)
  have c: "sorted_groups (e # cl) = sort m # sorted_groups cl" by (simp add: sorted_groups_def e)
  show ?case
  proof (cases "length m = n")
    case True
    then show ?thesis unfolding c using Cons.IH by (simp add: e)
  next
    case False
    then show ?thesis unfolding c using Cons.IH by (simp add: e)
  qed
qed

lemma snd_filter_length:
  "filter (\<lambda>ms. length ms = n) (map snd cl)
   = map snd (filter (\<lambda>(root, members). length members = n) cl)"
  by (induction cl) (simp_all add: case_prod_unfold)

lemma sorted_groups_ties:
  "filter (\<lambda>ms. length ms = n) (sorted_groups (sorted_clusters cl))
   = map sort (filter (\<lambda>ms. length ms = n) (map snd cl))"
  unfolding sorted_groups_filter snd_filter_length sorted_clusters_stable ..

lemma sorted_groups_members: "\<forall>ms\<in>set (sorted_groups cl). sorted ms"
proof
  fix ms assume "ms \<in> set (sorted_groups cl)"
  then obtain e where "ms = sort (snd e)" by (auto simp: sorted_groups_def case_prod_unfold)
  then show "sorted ms" by simp
qed

lemma mset_sorted_groups_clusters:
  "mset (sorted_groups (sorted_clusters cl)) = mset (sorted_groups cl)"
proof -
  have "mset (sorted_clusters cl) = mset cl" by (simp add: sorted_clusters_def)
  then have "image_mset (\<lambda>(root, members). sort members) (mset (sorted_clusters cl))
     = image_mset (\<lambda>(root, members). sort members) (mset cl)" by simp
  then show ?thesis by (simp add: sorted_groups_def)
qed

lemma sorted_groups_descending:
  "sorted (map (\<lambda>ms. - int (length ms)) (sorted_groups (sorted_clusters cl)))"
proof -
  have "map (\<lambda>ms. - int (length ms)) (sorted_groups cl')
      = map (\<lambda>(root, members). - int (length members)) cl'" for cl' :: cluster_dict
    by (induction cl') (simp_all add: sorted_groups_def case_prod_unfold)
  moreover have "sorted (map (\<lambda>(root, members). - int (length members)) (sorted_clusters cl))"
    by (simp add: sorted_clusters_def)
  ultimately show ?thesis by simp
qed

text \<open>
  Claim C6, amended. The clustering returns and the report is the text \<open>report_text\<close> of
  the number of logos, a list \<open>cs\<close> of clusters and a list \<open>ss\<close> of singletons. The list
  \<open>cs\<close> holds the multi-member clusters by descending member count, each with its members
  sorted; clusters with equally many members stand in the order of the cluster
  dictionary, which is the order in which their first members occur among the keys of the
  hash dictionary: there is no lexicographic tie-break. The list \<open>ss\<close> holds the singletons,
  sorted. For a second iteration order \<open>hashes'\<close> of the same mapping (distinct keys, a
  symmetric distance) the report has the same header and the same singletons, and its
  clusters \<open>cs'\<close> are those of \<open>cs\<close> up to their order, again by descending member count with
  ties in the order of its own cluster dictionary: the two reports can differ only in the
  order of clusters with equally many members.
\<close>

theorem report_order:
  fixes dist :: "'h \<Rightarrow> 'h \<Rightarrow> int" and hashes hashes' :: "'h hash_dict"
  shows "\<exists>out cs ss.
    cluster_partition dist hashes = ok out \<and>
    cluster_logos_main dist hashes = ok (report_text (length hashes) cs ss) \<and>
    sorted (map (\<lambda>ms. - int (length ms)) cs) \<and>
    (\<forall>n. filter (\<lambda>ms. length ms = n) cs = map sort (filter (\<lambda>ms. length ms = n) (map snd (fst out)))) \<and>
    subseq (map (\<lambda>(root, members). hd members) (fst out)) (map fst hashes) \<and>
    (\<forall>(root, members)\<in>set (fst out). subseq members (map fst hashes)) \<and>
    (\<forall>ms\<in>set cs. sorted ms) \<and>
    sorted ss \<and> mset ss = mset (snd out) \<and>
    (distinct (map fst hashes) \<and> mset hashes' = mset hashes \<and> (\<forall>x y. dist x y = dist y x) \<longrightarrow>
       (\<exists>out' cs'.
          cluster_partition dist hashes' = ok out' \<and>
          cluster_logos_main dist hashes' = ok (report_text (length hashes) cs' ss) \<and>
          mset cs' = mset cs \<and>
          sorted (map (\<lambda>ms. - int (length ms)) cs') \<and>
          (\<forall>n. filter (\<lambda>ms. length ms = n) cs'
                = map sort (filter (\<lambda>ms. length ms = n) (map snd (fst out'))))))"
proof -
  let ?D = "map fst hashes"
  from cluster_partition_grouped[of dist hashes]
  obtain f where res: "cluster_partition dist hashes = ok (multi_of (grouped f ?D), singletons_of (grouped f ?D))"
    by blast
  let ?out = "(multi_of (grouped f ?D), singletons_of (grouped f ?D))"
  let ?cs = "sorted_groups (sorted_clusters (fst ?out))"
  let ?ss = "sort (snd ?out)"
  have m: "cluster_logos_main dist hashes = ok (report_text (length hashes) ?cs ?ss)"
    using res by (simp add: cluster_logos_main_def bind_result_def ok_def report_as_text)
  have a: "sorted (map (\<lambda>ms. - int (length ms)) ?cs)"
    by (rule sorted_groups_descending)
  have b: "\<forall>n. filter (\<lambda>ms. length ms = n) ?cs = map sort (filter (\<lambda>ms. length ms = n) (map snd (fst ?out)))"
    using sorted_groups_ties by blast
  have c: "subseq (map (\<lambda>(root, members). hd members) (fst ?out)) ?D"
    using multi_heads_subseq[of f ?D] by simp
  have d: "\<forall>(root, members)\<in>set (fst ?out). subseq members ?D"
  proof (clarify)
    fix root members assume "(root, members) \<in> set (fst ?out)"
    then have "(root, members) \<in> set (grouped f ?D)" by (simp add: multi_of_def)
    then have "members = filter (\<lambda>d. f d = root) ?D" using grouped_entry by blast
    then show "subseq members ?D" by simp
  qed
  have e: "\<forall>ms\<in>set ?cs. sorted ms" by (rule sorted_groups_members)
  have g: "sorted ?ss" and h: "mset ?ss = mset (snd ?out)" by simp_all
  have k: "distinct (map fst hashes) \<and> mset hashes' = mset hashes \<and> (\<forall>x y. dist x y = dist y x) \<longrightarrow>
       (\<exists>out' cs'.
          cluster_partition dist hashes' = ok out' \<and>
          cluster_logos_main dist hashes' = ok (report_text (length hashes) cs' ?ss) \<and>
          mset cs' = mset ?cs \<and>
          sorted (map (\<lambda>ms. - int (length ms)) cs') \<and>
          (\<forall>n. filter (\<lambda>ms. length ms = n) cs'
                = map sort (filter (\<lambda>ms. length ms = n) (map snd (fst out')))))"
  proof (intro impI, elim conjE)
    assume dk: "distinct (map fst hashes)" and ms: "mset hashes' = mset hashes"
      and sym: "\<forall>x y. dist x y = dist y x"
    from partition_independent_of_key_order[OF dk ms[symmetric] sym] res
    obtain out' where r': "cluster_partition dist hashes' = ok out'"
      and gm: "mset (sorted_groups (fst ?out)) = mset (sorted_groups (fst out'))"
      and sg: "sort (snd ?out) = sort (snd out')"
      by (auto simp: ok_def)
    let ?cs' = "sorted_groups (sorted_clusters (fst out'))"
    have len: "length hashes' = length hashes" using ms by (metis size_mset)
    have sg': "sort (snd out') = ?ss" using sg by simp
    have "report (length hashes') out' = report_text (length hashes) ?cs' (sort (snd out'))"
      using report_as_text[of "length hashes'" "fst out'" "snd out'"] by (simp add: len)
    then have rt: "report (length hashes') out' = report_text (length hashes) ?cs' ?ss"
      by (simp only: sg')
    have m': "cluster_logos_main dist hashes' = ok (report_text (length hashes) ?cs' ?ss)"
      using r' by (simp add: cluster_logos_main_def bind_result_def ok_def rt)
    have p: "mset ?cs' = mset ?cs"
      unfolding mset_sorted_groups_clusters using gm by simp
    have a': "sorted (map (\<lambda>ms. - int (length ms)) ?cs')" by (rule sorted_groups_descending)
    have b': "\<forall>n. filter (\<lambda>ms. length ms = n) ?cs'
        = map sort (filter (\<lambda>ms. length ms = n) (map snd (fst out')))"
      using sorted_groups_ties by blast
    have "cluster_partition dist hashes' = ok out' \<and>
          cluster_logos_main dist hashes' = ok (report_text (length hashes) ?cs' ?ss) \<and>
          mset ?cs' = mset ?cs \<and>
          sorted (map (\<lambda>ms. - int (length ms)) ?cs') \<and>
          (\<forall>n. filter (\<lambda>ms. length ms = n) ?cs'
                = map sort (filter (\<lambda>ms. length ms = n) (map snd (fst out'))))"
      using r' m' p a' b' by (intro conjI)
    then show "\<exists>out' cs'.
          cluster_partition dist hashes' = ok out' \<and>
          cluster_logos_main dist hashes' = ok (report_text (length hashes) cs' ?ss) \<and>
          mset cs' = mset ?cs \<and>
          sorted (map (\<lambda>ms. - int (length ms)) cs') \<and>
          (\<forall>n. filter (\<lambda>ms. length ms = n) cs'
                = map sort (filter (\<lambda>ms. length ms = n) (map snd (fst out'))))"
      by blast
  qed
  have "cluster_partition dist hashes = ok ?out \<and>
    cluster_logos_main dist hashes = ok (report_text (length hashes) ?cs ?ss) \<and>
    sorted (map (\<lambda>ms. - int (length ms)) ?cs) \<and>
    (\<forall>n. filter (\<lambda>ms. length ms = n) ?cs = map sort (filter (\<lambda>ms. length ms = n) (map snd (fst ?out)))) \<and>
    subseq (map (\<lambda>(root, members). hd members) (fst ?out)) (map fst hashes) \<and>
    (\<forall>(root, members)\<in>set (fst ?out). subseq members (map fst hashes)) \<and>
    (\<forall>ms\<in>set ?cs. sorted ms) \<and>
    sorted ?ss \<and> mset ?ss = mset (snd ?out) \<and>
    (distinct (map fst hashes) \<and> mset hashes' = mset hashes \<and> (\<forall>x y. dist x y = dist y x) \<longrightarrow>
       (\<exists>out' cs'.
          cluster_partition dist hashes' = ok out' \<and>
          cluster_logos_main dist hashes' = ok (report_text (length hashes) cs' ?ss) \<and>
          mset cs' = mset ?cs \<and>
          sorted (map (\<lambda>ms. - int (length ms)) cs') \<and>
          (\<forall>n. filter (\<lambda>ms. length ms = n) cs'
                = map sort (filter (\<lambda>ms. length ms = n) (map snd (fst out'))))))"
    using res m a b c d e g h k by (intro conjI)
  then show ?thesis by blast
qed

lemma tie_eval_cd:
  "cluster_partition abs_dist tie_hashes_cd_first = ok ([(''c'', [''c'', ''d'']), (''a'', [''a'', ''b''])], [])"
  by code_simp

lemma tie_sorted_members:
  "map sort (filter (\<lambda>ms. length ms = 2) (map snd [(''c'', [''c'', ''d'']), (''a'', [''a'', ''b''])]))
     = [[''c'', ''d''], [''a'', ''b'']]"
  by code_simp

theorem report_order_witness:
  "distinct (map fst tie_hashes_cd_first)
   \<and> mset tie_hashes_ab_first = mset tie_hashes_cd_first
   \<and> (\<forall>x y. abs_dist x y = abs_dist y x)
   \<and> cluster_partition abs_dist tie_hashes_cd_first = ok ([(''c'', [''c'', ''d'']), (''a'', [''a'', ''b''])], [])
   \<and> (\<exists>cs cs' ss.
         cluster_logos_main abs_dist tie_hashes_cd_first = ok (report_text 4 cs ss)
         \<and> filter (\<lambda>ms. length ms = 2) cs = [[''c'', ''d''], [''a'', ''b'']]
         \<and> cluster_logos_main abs_dist tie_hashes_ab_first = ok (report_text 4 cs' ss)
         \<and> mset cs' = mset cs)"
proof -
  have dk: "distinct (map fst tie_hashes_cd_first)" by (simp add: tie_hashes_cd_first_def)
  have ms: "mset tie_hashes_ab_first = mset tie_hashes_cd_first"
    by (simp add: tie_hashes_cd_first_def tie_hashes_ab_first_def)
  have sym: "\<forall>x y. abs_dist x y = abs_dist y x" by (simp add: abs_dist_def abs_minus_commute)
  have len: "length tie_hashes_cd_first = 4" by (simp add: tie_hashes_cd_first_def)
  have e: "cluster_partition abs_dist tie_hashes_cd_first = ok ([(''c'', [''c'', ''d'']), (''a'', [''a'', ''b''])], [])"
    by (rule tie_eval_cd)
  from report_order[of abs_dist tie_hashes_cd_first tie_hashes_ab_first]
  obtain out cs ss where o: "cluster_partition abs_dist tie_hashes_cd_first = ok out"
    and m: "cluster_logos_main abs_dist tie_hashes_cd_first = ok (report_text (length tie_hashes_cd_first) cs ss)"
    and st: "\<forall>n. filter (\<lambda>ms. length ms = n) cs = map sort (filter (\<lambda>ms. length ms = n) (map snd (fst out)))"
    and other: "distinct (map fst tie_hashes_cd_first) \<and> mset tie_hashes_ab_first = mset tie_hashes_cd_first
         \<and> (\<forall>x y. abs_dist x y = abs_dist y x) \<longrightarrow>
       (\<exists>out' cs'.
          cluster_partition abs_dist tie_hashes_ab_first = ok out' \<and>
          cluster_logos_main abs_dist tie_hashes_ab_first = ok (report_text (length tie_hashes_cd_first) cs' ss) \<and>
          mset cs' = mset cs \<and>
          sorted (map (\<lambda>ms. - int (length ms)) cs') \<and>
          (\<forall>n. filter (\<lambda>ms. length ms = n) cs'
                = map sort (filter (\<lambda>ms. length ms = n) (map snd (fst out')))))"
    by blast
  from o e have out: "fst out = [(''c'', [''c'', ''d'']), (''a'', [''a'', ''b''])]" by (auto simp: ok_def)
  from st have "filter (\<lambda>ms. length ms = 2) cs
      = map sort (filter (\<lambda>ms. length ms = 2) (map snd (fst out)))" by blast
  then have t: "filter (\<lambda>ms. length ms = 2) cs = [[''c'', ''d''], [''a'', ''b'']]"
    unfolding out tie_sorted_members .
  from other dk ms sym obtain cs' where
    m': "cluster_logos_main abs_dist tie_hashes_ab_first = ok (report_text (length tie_hashes_cd_first) cs' ss)"
    and p: "mset cs' = mset cs" by blast
  have "cluster_logos_main abs_dist tie_hashes_cd_first = ok (report_text 4 cs ss)
         \<and> filter (\<lambda>ms. length ms = 2) cs = [[''c'', ''d''], [''a'', ''b'']]
         \<and> cluster_logos_main abs_dist tie_hashes_ab_first = ok (report_text 4 cs' ss)
         \<and> mset cs' = mset cs"
    using m m' t p unfolding len by (intro conjI)
  then have "\<exists>cs cs' ss.
         cluster_logos_main abs_dist tie_hashes_cd_first = ok (report_text 4 cs ss)
         \<and> filter (\<lambda>ms. length ms = 2) cs = [[''c'', ''d''], [''a'', ''b'']]
         \<and> cluster_logos_main abs_dist tie_hashes_ab_first = ok (report_text 4 cs' ss)
         \<and> mset cs' = mset cs" by blast
  then show ?thesis using dk ms sym e by (intro conjI)
qed

text \<open>
  The claim as stated fails: the same mapping in two key orders gives two different
  reports, and in the first the tie between the clusters \<open>{c, d}\<close> and \<open>{a, b}\<close> is not
  resolved lexicographically.
\<close>

theorem report_order_counterexample:
  "mset tie_hashes_cd_first = mset tie_hashes_ab_first
   \<and> cluster_logos_main abs_dist tie_hashes_cd_first = ok
       ''# Logo Clustering Report (Perceptual Hash)\<newline># Threshold: Hamming distance <= 8\<newline># Total logos: 4\<newline># Clusters (2+ logos): 2\<newline># Singletons: 0\<newline>\<newline>=== Cluster 1 (2 logos) ===\<newline>  c\<newline>  d\<newline>\<newline>=== Cluster 2 (2 logos) ===\<newline>  a\<newline>  b\<newline>\<newline>=== Singletons ===\<newline>''
   \<and> cluster_logos_main abs_dist tie_hashes_ab_first = ok
       ''# Logo Clustering Report (Perceptual Hash)\<newline># Threshold: Hamming distance <= 8\<newline># Total logos: 4\<newline># Clusters (2+ logos): 2\<newline># Singletons: 0\<newline>\<newline>=== Cluster 1 (2 logos) ===\<newline>  a\<newline>  b\<newline>\<newline>=== Cluster 2 (2 logos) ===\<newline>  c\<newline>  d\<newline>\<newline>=== Singletons ===\<newline>''
   \<and> cluster_logos_main abs_dist tie_hashes_cd_first \<noteq> cluster_logos_main abs_dist tie_hashes_ab_first"
proof -
  have "mset tie_hashes_cd_first = mset tie_hashes_ab_first"
    by (simp add: tie_hashes_cd_first_def tie_hashes_ab_first_def)
  moreover have "cluster_logos_main abs_dist tie_hashes_cd_first = ok
       ''# Logo Clustering Report (Perceptual Hash)\<newline># Threshold: Hamming distance <= 8\<newline># Total logos: 4\<newline># Clusters (2+ logos): 2\<newline># Singletons: 0\<newline>\<newline>=== Cluster 1 (2 logos) ===\<newline>  c\<newline>  d\<newline>\<newline>=== Cluster 2 (2 logos) ===\<newline>  a\<newline>  b\<newline>\<newline>=== Singletons ===\<newline>''"
    by code_simp
  moreover have "cluster_logos_main abs_dist tie_hashes_ab_first = ok
       ''# Logo Clustering Report (Perceptual Hash)\<newline># Threshold: Hamming distance <= 8\<newline># Total logos: 4\<newline># Clusters (2+ logos): 2\<newline># Singletons: 0\<newline>\<newline>=== Cluster 1 (2 logos) ===\<newline>  a\<newline>  b\<newline>\<newline>=== Cluster 2 (2 logos) ===\<newline>  c\<newline>  d\<newline>\<newline>=== Singletons ===\<newline>''"
    by code_simp
  moreover have "cluster_logos_main abs_dist tie_hashes_cd_first \<noteq> cluster_logos_main abs_dist tie_hashes_ab_first"
    by code_simp
  ultimately show ?thesis by blast
qed

section \<open>Properties of the candidate scorer\<close>

subsection \<open>The home-link scenario\<close>

lemma acme_queries:
  "find_all_scripts acme_page = []"
  "find_all_links acme_page = []"
  "find_og_image acme_page = None"
  "find_all_imgs acme_page =
     [((''img'', [(''src'', AStr ''/logo.png''), (''alt'', AStr ''Acme logo'')]),
       [(''a'', [(''href'', AStr ''/'')]), document_tag])]"
  by code_simp+

lemma acme_strings:
  "strip ''/logo.png'' = ''/logo.png''"
  "strip ''/'' = ''/''"
  "lower ''https://acme.com/logo.png'' = ''https://acme.com/logo.png''"
  "lower ''https://acme.com/'' = ''https://acme.com/''"
  "lower ''acme'' = ''acme''"
  by code_simp+

lemma acme_normalize:
  assumes "urljoin lib ''https://acme.com'' ''/logo.png'' = Some ''https://acme.com/logo.png''"
    and "urljoin lib ''https://acme.com'' ''/'' = Some ''https://acme.com/''"
  shows "normalize_url lib ''https://acme.com'' (Some ''/logo.png'') = Some ''https://acme.com/logo.png''"
    and "normalize_url lib ''https://acme.com'' (Some ''/'') = Some ''https://acme.com/''"
  using assms by (simp_all add: normalize_url_def acme_strings)

lemma acme_home:
  assumes "urljoin lib ''https://acme.com'' ''/'' = Some ''https://acme.com/''"
    and "urlparse lib ''https://acme.com'' = Some \<lparr>scheme = ''https'', netloc = ''acme.com'', path = ''''\<rparr>"
    and "urlparse lib ''https://acme.com/'' = Some \<lparr>scheme = ''https'', netloc = ''acme.com'', path = ''/''\<rparr>"
  shows "is_home_link lib ''https://acme.com'' (Some ''/'') = Inr True"
  using assms by (simp add: is_home_link_def normalize_url_def acme_strings)

lemma acme_stem:
  assumes "urlparse lib ''https://acme.com'' = Some \<lparr>scheme = ''https'', netloc = ''acme.com'', path = ''''\<rparr>"
  shows "extract_domain_stem lib ''https://acme.com'' = ''acme''"
  using assms by (simp add: extract_domain_stem_def acme_strings)

text \<open>The score of an image depends on the library only through the home-link test.\<close>

lemma score_image_home:
  assumes "filter (\<lambda>p. fst p = ''a'') parents = a # rest"
    and "get_attr a ''href'' = Some (AStr h)"
    and "is_home_link lib base (Some h) = is_home_link lib' base (Some h)"
  shows "score_image lib base stem img parents src = score_image lib' base stem img parents src"
  using assms by (simp add: score_image_def)

lemma acme_score_example:
  "score_image example_lib ''https://acme.com'' ''acme''
     (''img'', [(''src'', AStr ''/logo.png''), (''alt'', AStr ''Acme logo'')])
     [(''a'', [(''href'', AStr ''/'')]), document_tag] ''/logo.png''
   = Inr (80, [''Linked to Home'', ''Keyword Match (logo/brand)'',
               ''Alt text contains '' @ [CHR 0x27] @ ''logo'' @ [CHR 0x27]])"
  by code_simp

lemma acme_home_example: "is_home_link example_lib ''https://acme.com'' (Some ''/'') = Inr True"
  by code_simp

lemma acme_label:
  "join '', '' [''Linked to Home'', ''Keyword Match (logo/brand)'',
               ''Alt text contains '' @ [CHR 0x27] @ ''logo'' @ [CHR 0x27]]
   = ''Linked to Home, Keyword Match (logo/brand), Alt text contains '' @ [CHR 0x27] @ ''logo'' @ [CHR 0x27]"
  by simp

text \<open>
  Claim C4, amended. For the page \<open><a href="/"><img src="/logo.png" alt="Acme logo"></a>\<close>
  and the base URL \<open>https://acme.com\<close>, with any library that resolves \<open>/logo.png\<close> and
  \<open>/\<close> against the base and splits the two URLs as urllib does, the scorer returns the
  one candidate \<open>https://acme.com/logo.png\<close> with score 80 (50 home link, 20 keyword,
  10 alt text; the domain stem \<open>acme\<close> does not occur in the source \<open>/logo.png\<close>) and
  one signal label, the three reasons joined by commas.
\<close>

theorem acme_scenario:
  assumes j1: "urljoin lib ''https://acme.com'' ''/logo.png'' = Some ''https://acme.com/logo.png''"
    and j2: "urljoin lib ''https://acme.com'' ''/'' = Some ''https://acme.com/''"
    and p1: "urlparse lib ''https://acme.com'' = Some \<lparr>scheme = ''https'', netloc = ''acme.com'', path = ''''\<rparr>"
    and p2: "urlparse lib ''https://acme.com/'' = Some \<lparr>scheme = ''https'', netloc = ''acme.com'', path = ''/''\<rparr>"
  shows "analyze_html lib acme_page ''https://acme.com'' =
     Inr [(''https://acme.com/logo.png'',
           \<lparr>score = 80,
            reasons = {''Linked to Home, Keyword Match (logo/brand), Alt text contains ''
                       @ [CHR 0x27] @ ''logo'' @ [CHR 0x27]}\<rparr>)]"
proof -
  let ?img = "(''img'', [(''src'', AStr ''/logo.png''), (''alt'', AStr ''Acme logo'')])"
  let ?ps = "[(''a'', [(''href'', AStr ''/'')]), document_tag]"
  have before: "before_images lib acme_page ''https://acme.com'' = []"
    by (simp add: before_images_def scan_scripts_def scan_links_def scan_og_image_def acme_queries)
  have home: "is_home_link lib ''https://acme.com'' (Some ''/'')
      = is_home_link example_lib ''https://acme.com'' (Some ''/'')"
    using acme_home[OF j2 p1 p2] acme_home_example by simp
  have "score_image lib ''https://acme.com'' ''acme'' ?img ?ps ''/logo.png''
      = score_image example_lib ''https://acme.com'' ''acme'' ?img ?ps ''/logo.png''"
    by (rule score_image_home[where a = "(''a'', [(''href'', AStr ''/'')])" and rest = "[]" and h = "''/''"])
       (simp_all add: document_tag_def get_attr_def home)
  then have sc: "score_image lib ''https://acme.com'' ''acme'' ?img ?ps ''/logo.png''
      = Inr (80, [''Linked to Home'', ''Keyword Match (logo/brand)'',
               ''Alt text contains '' @ [CHR 0x27] @ ''logo'' @ [CHR 0x27]])"
    using acme_score_example by simp
  have "scan_image lib ''https://acme.com'' ''acme'' [] (?img, ?ps)
      = Inr [(''https://acme.com/logo.png'',
           \<lparr>score = 80,
            reasons = {''Linked to Home, Keyword Match (logo/brand), Alt text contains ''
                       @ [CHR 0x27] @ ''logo'' @ [CHR 0x27]}\<rparr>)]"
    unfolding scan_image_def
    by (simp add: get_attr_def sc update_candidate_def acme_normalize(1)[OF j1 j2])
  then show ?thesis
    by (simp add: analyze_html_def before acme_queries acme_stem[OF p1])
qed

theorem acme_scenario_witness:
  "urljoin example_lib ''https://acme.com'' ''/logo.png'' = Some ''https://acme.com/logo.png''
   \<and> urljoin example_lib ''https://acme.com'' ''/'' = Some ''https://acme.com/''
   \<and> urlparse example_lib ''https://acme.com'' = Some \<lparr>scheme = ''https'', netloc = ''acme.com'', path = ''''\<rparr>
   \<and> urlparse example_lib ''https://acme.com/'' = Some \<lparr>scheme = ''https'', netloc = ''acme.com'', path = ''/''\<rparr>
   \<and> analyze_html example_lib acme_page ''https://acme.com'' =
     Inr [(''https://acme.com/logo.png'',
           \<lparr>score = 80,
            reasons = {''Linked to Home, Keyword Match (logo/brand), Alt text contains ''
                       @ [CHR 0x27] @ ''logo'' @ [CHR 0x27]}\<rparr>)]"
proof -
  have j1: "urljoin example_lib ''https://acme.com'' ''/logo.png'' = Some ''https://acme.com/logo.png''"
    by code_simp
  have j2: "urljoin example_lib ''https://acme.com'' ''/'' = Some ''https://acme.com/''"
    by code_simp
  have p1: "urlparse example_lib ''https://acme.com'' = Some \<lparr>scheme = ''https'', netloc = ''acme.com'', path = ''''\<rparr>"
    by code_simp
  have p2: "urlparse example_lib ''https://acme.com/'' = Some \<lparr>scheme = ''https'', netloc = ''acme.com'', path = ''/''\<rparr>"
    by code_simp
  from acme_scenario[OF j1 j2 p1 p2] j1 j2 p1 p2 show ?thesis by blast
qed

text \<open>
  The claim as stated fails: the score is 80, not 100, and the signal set is one joined
  label, not the four labels of the claim.
\<close>

theorem acme_scenario_counterexample:
  "analyze_html example_lib acme_page ''https://acme.com'' =
     Inr [(''https://acme.com/logo.png'',
           \<lparr>score = 80,
            reasons = {''Linked to Home, Keyword Match (logo/brand), Alt text contains ''
                       @ [CHR 0x27] @ ''logo'' @ [CHR 0x27]}\<rparr>)]
   \<and> analyze_html example_lib acme_page ''https://acme.com'' \<noteq>
     Inr [(''https://acme.com/logo.png'',
           \<lparr>score = 100,
            reasons = {''Linked to Home'',
                       ''Filename matches domain '' @ [CHR 0x27] @ ''acme'' @ [CHR 0x27],
                       ''Keyword Match'',
                       ''Alt text contains '' @ [CHR 0x27] @ ''logo'' @ [CHR 0x27]}\<rparr>)]
   \<and> \<not> contains ''acme'' (lower ''/logo.png'')"
  by code_simp

subsection \<open>Every pass is a list of detections\<close>

lemma apply_detections_Nil: "apply_detections lib base [] cands = cands"
  by (simp add: apply_detections_def)

lemma apply_detections_Cons:
  "apply_detections lib base ((url, s, r) # ds) cands
   = apply_detections lib base ds (update_candidate lib base cands url s r)"
  by (simp add: apply_detections_def)

lemma apply_detections_append:
  "apply_detections lib base (ds @ es) cands
   = apply_detections lib base es (apply_detections lib base ds cands)"
  by (simp add: apply_detections_def)

lemma update_candidate_None: "update_candidate lib base cands None s r = cands"
  by (simp add: update_candidate_def normalize_url_def)

lemma add_logos_detections:
  "add_logos lib base cands vs = apply_detections lib base (logo_detections vs) cands"
proof (induction vs arbitrary: cands)
  case Nil
  show ?case by (simp add: apply_detections_Nil)
next
  case (Cons v vs)
  show ?case
  proof (cases "is_falsy v")
    case True
    then show ?thesis using Cons.IH by (simp add: update_candidate_json_def)
  next
    case False
    then show ?thesis using Cons.IH
      by (cases v) (simp_all add: update_candidate_json_def apply_detections_Nil apply_detections_Cons)
  qed
qed

lemma scan_script_detections:
  "scan_script lib base cands s = apply_detections lib base (script_detections lib s) cands"
  by (auto simp: scan_script_def script_detections_def apply_detections_Nil add_logos_detections
           split: option.splits)

lemma fold_detections:
  assumes "\<And>c x. step c x = apply_detections lib base (dets x) c"
  shows "fold (\<lambda>x c. step c x) xs cands = apply_detections lib base (concat (map dets xs)) cands"
  by (induction xs arbitrary: cands) (simp_all add: assms apply_detections_Nil apply_detections_append)

lemma scan_scripts_detections:
  "scan_scripts lib base sp cands
   = apply_detections lib base (concat (map (script_detections lib) (find_all_scripts sp))) cands"
  unfolding scan_scripts_def by (rule fold_detections) (rule scan_script_detections)

lemma scan_link_detections:
  "scan_link lib base cands l = apply_detections lib base (link_detections l) cands"
  by (auto simp: scan_link_def link_detections_def apply_detections_Nil apply_detections_Cons
           split: option.splits)

lemma scan_links_detections:
  "scan_links lib base sp cands
   = apply_detections lib base (concat (map link_detections (find_all_links sp))) cands"
  unfolding scan_links_def by (rule fold_detections) (rule scan_link_detections)

lemma scan_og_image_detections:
  "scan_og_image lib base sp cands = apply_detections lib base (og_detections sp) cands"
  by (auto simp: scan_og_image_def og_detections_def apply_detections_Nil apply_detections_Cons
           split: option.splits)

lemma scan_images_detections:
  "scan_images lib base stem cands es =
     (case image_detections lib base stem es of
        Inl err \<Rightarrow> Inl err
      | Inr ds \<Rightarrow> Inr (apply_detections lib base ds cands))"
proof (induction es arbitrary: cands)
  case Nil
  show ?case by (simp add: apply_detections_Nil)
next
  case (Cons e es)
  obtain img parents where e: "e = (img, parents)" by (cases e)
  show ?case
    unfolding e
    by (auto simp: scan_image_def Cons.IH apply_detections_Cons
             split: option.splits attr_val.splits sum.splits)
qed

lemma analyze_html_detections:
  "analyze_html lib sp base =
     (case detections lib sp base of
        Inl err \<Rightarrow> Inl err
      | Inr ds \<Rightarrow> Inr (apply_detections lib base ds []))"
  by (simp add: analyze_html_def detections_def before_images_def scan_images_detections
        scan_og_image_detections scan_links_detections scan_scripts_detections
        apply_detections_append split: sum.splits)

subsection \<open>Merging by maximum\<close>

lemma map_of_upsert:
  "map_of (upsert cands u s r) =
     (map_of cands)(u \<mapsto>
        (case map_of cands u of
           None \<Rightarrow> \<lparr>score = max 0 s, reasons = {r}\<rparr>
         | Some c \<Rightarrow> \<lparr>score = max (score c) s, reasons = insert r (reasons c)\<rparr>))"
  by (induction cands u s r rule: upsert.induct) (auto simp: fun_eq_iff max_def)

lemma keys_upsert: "set (map fst (upsert cands u s r)) = insert u (set (map fst cands))"
  by (induction cands u s r rule: upsert.induct) auto

lemma distinct_upsert: "distinct (map fst cands) \<Longrightarrow> distinct (map fst (upsert cands u s r))"
proof (induction cands u s r rule: upsert.induct)
  case (1 u s r)
  show ?case by simp
next
  case (2 k c rest u s r)
  then show ?case using keys_upsert[of rest u s r] by auto
qed

lemma distinct_apply_detections:
  "distinct (map fst cands) \<Longrightarrow> distinct (map fst (apply_detections lib base dets cands))"
proof (induction dets arbitrary: cands)
  case Nil
  then show ?case by (simp add: apply_detections_Nil)
next
  case (Cons d dets)
  obtain url s r where d: "d = (url, s, r)" by (cases d)
  have "distinct (map fst (update_candidate lib base cands url s r))"
    using Cons.prems by (simp add: update_candidate_def distinct_upsert split: option.splits)
  then show ?case unfolding d apply_detections_Cons by (rule Cons.IH)
qed

lemma contributions_Nil: "contributions lib base [] u = []"
  by (simp add: contributions_def)

lemma contributions_Cons:
  "contributions lib base ((url, s, r) # ds) u =
     (if normalize_url lib base url = Some u then (s, r) # contributions lib base ds u
      else contributions lib base ds u)"
  by (simp add: contributions_def)

lemma map_of_apply_detections:
  "map_of (apply_detections lib base dets cands) u =
     (case map_of cands u of
        None \<Rightarrow>
          (if contributions lib base dets u = [] then None
           else Some \<lparr>score = fold max (map fst (contributions lib base dets u)) 0,
                      reasons = set (map snd (contributions lib base dets u))\<rparr>)
      | Some c \<Rightarrow>
          Some \<lparr>score = fold max (map fst (contributions lib base dets u)) (score c),
                reasons = reasons c \<union> set (map snd (contributions lib base dets u))\<rparr>)"
proof (induction dets arbitrary: cands)
  case Nil
  show ?case by (simp add: apply_detections_Nil contributions_Nil split: option.splits)
next
  case (Cons d dets)
  obtain url s r where d: "d = (url, s, r)" by (cases d)
  show ?case
  proof (cases "normalize_url lib base url")
    case None
    have a: "apply_detections lib base (d # dets) cands = apply_detections lib base dets cands"
      using None by (simp add: d apply_detections_Cons update_candidate_def)
    have c: "contributions lib base (d # dets) u = contributions lib base dets u"
      using None by (simp add: d contributions_Cons)
    show ?thesis unfolding a c by (rule Cons.IH)
  next
    case (Some v)
    have a: "apply_detections lib base (d # dets) cands
        = apply_detections lib base dets (upsert cands v s r)"
      using Some by (simp add: d apply_detections_Cons update_candidate_def)
    show ?thesis
    proof (cases "v = u")
      case False
      have c: "contributions lib base (d # dets) u = contributions lib base dets u"
        using Some False by (simp add: d contributions_Cons)
      have m: "map_of (upsert cands v s r) u = map_of cands u"
        using False by (simp add: map_of_upsert)
      show ?thesis unfolding a c using Cons.IH[of "upsert cands v s r"] by (simp only: m)
    next
      case True
      have c: "contributions lib base (d # dets) u = (s, r) # contributions lib base dets u"
        using Some True by (simp add: d contributions_Cons)
      show ?thesis
      proof (cases "map_of cands u")
        case None
        then have m: "map_of (upsert cands v s r) u = Some \<lparr>score = max 0 s, reasons = {r}\<rparr>"
          using True by (simp add: map_of_upsert)
        show ?thesis unfolding a c using Cons.IH[of "upsert cands v s r"]
          by (simp add: m None max.commute)
      next
        case (Some c0)
        then have m: "map_of (upsert cands v s r) u
            = Some \<lparr>score = max (score c0) s, reasons = insert r (reasons c0)\<rparr>"
          using True by (simp add: map_of_upsert)
        show ?thesis unfolding a c using Cons.IH[of "upsert cands v s r"]
          by (simp add: m Some max.commute)
      qed
    qed
  qed
qed

lemma fold_max_Max: "fold max xs (a :: int) = Max (set (a # xs))"
  by (rule Max.set_eq_fold[symmetric])

lemma map_of_apply_detections_empty:
  "map_of (apply_detections lib base dets []) u =
     (if contributions lib base dets u = [] then None
      else Some \<lparr>score = Max (set (0 # map fst (contributions lib base dets u))),
                 reasons = set (map snd (contributions lib base dets u))\<rparr>)"
  using map_of_apply_detections[of lib base dets "[]" u] by (simp only: fold_max_Max) simp

lemma analyze_html_result:
  assumes "analyze_html lib sp base = Inr cands"
  shows "\<exists>dets. detections lib sp base = Inr dets \<and> cands = apply_detections lib base dets []"
  using assms by (auto simp: analyze_html_detections split: sum.splits)

lemma Max_with_zero:
  assumes "x \<in> set xs" and "(0::int) \<le> x"
  shows "Max (set (0 # xs)) = Max (set xs)"
proof -
  have ne: "set xs \<noteq> {}" using assms(1) by auto
  have "x \<le> Max (set xs)" using assms(1) by simp
  then have "0 \<le> Max (set xs)" using assms(2) by linarith
  moreover have "Max (set (0 # xs)) = max 0 (Max (set xs))"
    using ne by (simp add: Max_insert)
  ultimately show ?thesis by simp
qed

lemma candidate_nonneg:
  assumes "analyze_html lib sp base = Inr cands" and "(u, c) \<in> set cands"
  shows "0 \<le> score c"
proof -
  from analyze_html_result[OF assms(1)]
  obtain dets where c: "cands = apply_detections lib base dets []" by blast
  have "distinct (map fst cands)" unfolding c by (rule distinct_apply_detections) simp
  then have "map_of cands u = Some c" using assms(2) by simp
  then have "c = \<lparr>score = Max (set (0 # map fst (contributions lib base dets u))),
                  reasons = set (map snd (contributions lib base dets u))\<rparr>"
    unfolding c map_of_apply_detections_empty by (simp split: if_splits)
  then have "score c = Max (set (0 # map fst (contributions lib base dets u)))" by simp
  moreover have "0 \<le> Max (set (0 # map fst (contributions lib base dets u)))"
    by (rule Max_ge) simp_all
  ultimately show ?thesis by simp
qed

text \<open>
  Claim C2, amended. When the scorer returns, its dictionary has one candidate per
  normalized URL, and the run is a list of detections such that a URL is a candidate
  exactly when some detection normalizes to it; its final score is the maximum of 0 and
  the scores of those detections (not their sum), and its signal set is the set of their
  reason labels. So the score is the maximum of the contributing scores whenever one of
  them is not negative; a URL found with scores 10 and 20 ends with score 20 and both
  labels.
\<close>

theorem candidate_score_is_max_merge:
  assumes "analyze_html lib sp base_url = Inr cands"
  shows "distinct (map fst cands) \<and>
    (\<exists>dets. detections lib sp base_url = Inr dets \<and>
      (\<forall>u. map_of cands u =
         (if contributions lib base_url dets u = [] then None
          else Some \<lparr>score = Max (set (0 # map fst (contributions lib base_url dets u))),
                     reasons = set (map snd (contributions lib base_url dets u))\<rparr>)) \<and>
      (\<forall>u. (\<exists>s\<in>set (map fst (contributions lib base_url dets u)). 0 \<le> s) \<longrightarrow>
         map_option score (map_of cands u)
           = Some (Max (set (map fst (contributions lib base_url dets u))))) \<and>
      (\<forall>u r1 r2. contributions lib base_url dets u = [(10, r1), (20, r2)] \<longrightarrow>
         map_of cands u = Some \<lparr>score = 20, reasons = {r1, r2}\<rparr>))"
proof -
  from analyze_html_result[OF assms]
  obtain dets where d: "detections lib sp base_url = Inr dets"
    and c: "cands = apply_detections lib base_url dets []" by blast
  have dist: "distinct (map fst cands)" unfolding c by (rule distinct_apply_detections) simp
  have m: "map_of cands u =
         (if contributions lib base_url dets u = [] then None
          else Some \<lparr>score = Max (set (0 # map fst (contributions lib base_url dets u))),
                     reasons = set (map snd (contributions lib base_url dets u))\<rparr>)" for u
    unfolding c by (rule map_of_apply_detections_empty)
  have p2: "map_option score (map_of cands u)
           = Some (Max (set (map fst (contributions lib base_url dets u))))"
    if "\<exists>s\<in>set (map fst (contributions lib base_url dets u)). 0 \<le> s" for u
  proof -
    from that obtain s where s: "s \<in> set (map fst (contributions lib base_url dets u))" "0 \<le> s"
      by blast
    then have ne: "contributions lib base_url dets u \<noteq> []" by auto
    show ?thesis using ne Max_with_zero[OF s] by (simp only: m) simp
  qed
  have p3: "map_of cands u = Some \<lparr>score = 20, reasons = {r1, r2}\<rparr>"
    if "contributions lib base_url dets u = [(10, r1), (20, r2)]" for u r1 r2
    using that by (simp add: m)
  show ?thesis using dist d m p2 p3 by blast
qed

lemma icon_and_image_eval:
  "analyze_html example_lib icon_and_image_page ''https://acme.com'' =
     Inr [(''https://acme.com/logo.png'',
           \<lparr>score = 20, reasons = {''Favicon/Touch Icon'', ''Keyword Match (logo/brand)''}\<rparr>)]"
  "detections example_lib icon_and_image_page ''https://acme.com'' =
     Inr [(Some ''/logo.png'', 10, ''Favicon/Touch Icon''),
          (Some ''/logo.png'', 20, ''Keyword Match (logo/brand)'')]"
  "contributions example_lib ''https://acme.com''
     [(Some ''/logo.png'', 10, ''Favicon/Touch Icon''),
      (Some ''/logo.png'', 20, ''Keyword Match (logo/brand)'')] ''https://acme.com/logo.png''
   = [(10, ''Favicon/Touch Icon''), (20, ''Keyword Match (logo/brand)'')]"
  by code_simp+

theorem candidate_score_is_max_merge_witness:
  "analyze_html example_lib icon_and_image_page ''https://acme.com'' =
     Inr [(''https://acme.com/logo.png'',
           \<lparr>score = 20, reasons = {''Favicon/Touch Icon'', ''Keyword Match (logo/brand)''}\<rparr>)]
   \<and> detections example_lib icon_and_image_page ''https://acme.com'' =
     Inr [(Some ''/logo.png'', 10, ''Favicon/Touch Icon''),
          (Some ''/logo.png'', 20, ''Keyword Match (logo/brand)'')]
   \<and> contributions example_lib ''https://acme.com''
     [(Some ''/logo.png'', 10, ''Favicon/Touch Icon''),
      (Some ''/logo.png'', 20, ''Keyword Match (logo/brand)'')] ''https://acme.com/logo.png''
     = [(10, ''Favicon/Touch Icon''), (20, ''Keyword Match (logo/brand)'')]
   \<and> map_of [(''https://acme.com/logo.png'',
           \<lparr>score = 20, reasons = {''Favicon/Touch Icon'', ''Keyword Match (logo/brand)''}\<rparr>)]
        ''https://acme.com/logo.png''
     = Some \<lparr>score = Max (set (0 # map fst [(10, ''Favicon/Touch Icon''), (20 :: int, ''Keyword Match (logo/brand)'')])),
             reasons = set (map snd [(10 :: int, ''Favicon/Touch Icon''), (20, ''Keyword Match (logo/brand)'')])\<rparr>"
proof -
  note e = icon_and_image_eval
  from candidate_score_is_max_merge[OF e(1)]
  obtain dets where d: "detections example_lib icon_and_image_page ''https://acme.com'' = Inr dets"
    and m: "\<forall>u. map_of [(''https://acme.com/logo.png'',
           \<lparr>score = 20, reasons = {''Favicon/Touch Icon'', ''Keyword Match (logo/brand)''}\<rparr>)] u =
         (if contributions example_lib ''https://acme.com'' dets u = [] then None
          else Some \<lparr>score = Max (set (0 # map fst (contributions example_lib ''https://acme.com'' dets u))),
                     reasons = set (map snd (contributions example_lib ''https://acme.com'' dets u))\<rparr>)"
    by blast
  from d e(2) have dets: "dets = [(Some ''/logo.png'', 10, ''Favicon/Touch Icon''),
          (Some ''/logo.png'', 20, ''Keyword Match (logo/brand)'')]" by simp
  from m[rule_format, of "''https://acme.com/logo.png''"]
  have "map_of [(''https://acme.com/logo.png'',
           \<lparr>score = 20, reasons = {''Favicon/Touch Icon'', ''Keyword Match (logo/brand)''}\<rparr>)]
        ''https://acme.com/logo.png''
     = Some \<lparr>score = Max (set (0 # map fst [(10, ''Favicon/Touch Icon''), (20 :: int, ''Keyword Match (logo/brand)'')])),
             reasons = set (map snd [(10 :: int, ''Favicon/Touch Icon''), (20, ''Keyword Match (logo/brand)'')])\<rparr>"
    unfolding dets e(3) by simp
  with e show ?thesis by blast
qed

text \<open>
  The claim as stated fails when every contributing score is negative: the two images
  contribute -30 and -50, and the candidate ends with score 0, not -30.
\<close>

theorem candidate_score_is_max_merge_counterexample:
  "detections example_lib two_penalties_page ''https://acme.com'' =
     Inr [(Some ''/x.png'', - 30, ''In Footer''),
          (Some ''/x.png'', - 50, ''Negative Keyword (partner/client)'')]
   \<and> analyze_html example_lib two_penalties_page ''https://acme.com'' =
     Inr [(''https://acme.com/x.png'',
           \<lparr>score = 0, reasons = {''In Footer'', ''Negative Keyword (partner/client)''}\<rparr>)]
   \<and> max (- 30) (- 50) \<noteq> (0 :: int)"
  by code_simp

text \<open>
  Claim C3, amended. No candidate of the scorer's output has a negative score: a
  candidate enters with score 0 and a detection replaces the score only by a greater one,
  so an image whose penalties outweigh its bonuses is listed with score 0.
\<close>

theorem scores_are_never_negative:
  "(\<forall>cands u c. analyze_html lib sp base_url = Inr cands \<and> (u, c) \<in> set cands \<longrightarrow> 0 \<le> score c)
   \<and> (\<forall>results rank s url signals.
         extract_logo_main lib sp url_arg = Inr results \<and> (rank, s, url, signals) \<in> set results
         \<longrightarrow> 0 \<le> s)"
proof (intro conjI allI impI)
  fix cands u c
  assume "analyze_html lib sp base_url = Inr cands \<and> (u, c) \<in> set cands"
  then show "0 \<le> score c" using candidate_nonneg by blast
next
  fix results rank s url signals
  assume h: "extract_logo_main lib sp url_arg = Inr results \<and> (rank, s, url, signals) \<in> set results"
  then obtain base cands where a: "analyze_html lib sp base = Inr cands"
    and r: "results = results_of cands"
    by (auto simp: extract_logo_main_def Let_def split: option.splits sum.splits)
  from h r have "(rank, s, url, signals) \<in> set (results_of cands)" by simp
  then obtain i data where "(i, url, data) \<in> set (zip [0 ..< length (ranked cands)] (ranked cands))"
    and s: "s = score data"
    by (auto simp: results_of_def)
  then have "(url, data) \<in> set (ranked cands)" by (auto dest: set_zip_rightD)
  then have "(url, data) \<in> set cands" by (simp add: ranked_def)
  then show "0 \<le> s" using candidate_nonneg[OF a] s by blast
qed

theorem scores_are_never_negative_witness:
  "analyze_html example_lib two_penalties_page ''https://acme.com'' =
     Inr [(''https://acme.com/x.png'',
           \<lparr>score = 0, reasons = {''In Footer'', ''Negative Keyword (partner/client)''}\<rparr>)]
   \<and> (''https://acme.com/x.png'',
           \<lparr>score = 0, reasons = {''In Footer'', ''Negative Keyword (partner/client)''}\<rparr>)
       \<in> set [(''https://acme.com/x.png'',
           \<lparr>score = 0, reasons = {''In Footer'', ''Negative Keyword (partner/client)''}\<rparr>)]
   \<and> 0 \<le> score \<lparr>score = 0, reasons = {''In Footer'', ''Negative Keyword (partner/client)''}\<rparr>"
proof -
  have e: "analyze_html example_lib two_penalties_page ''https://acme.com'' =
     Inr [(''https://acme.com/x.png'',
           \<lparr>score = 0, reasons = {''In Footer'', ''Negative Keyword (partner/client)''}\<rparr>)]"
    by code_simp
  have i: "(''https://acme.com/x.png'',
           \<lparr>score = 0, reasons = {''In Footer'', ''Negative Keyword (partner/client)''}\<rparr>)
       \<in> set [(''https://acme.com/x.png'',
           \<lparr>score = 0, reasons = {''In Footer'', ''Negative Keyword (partner/client)''}\<rparr>)]"
    by simp
  from scores_are_never_negative[of example_lib two_penalties_page "''https://acme.com''"] e i
  have "0 \<le> score \<lparr>score = 0, reasons = {''In Footer'', ''Negative Keyword (partner/client)''}\<rparr>"
    by blast
  with e i show ?thesis by blast
qed

text \<open>
  The claim as stated fails: no input gives a negative score, and on the claim's own
  example, an image whose only signal is the footer penalty of -30, the candidate is
  listed with score 0.
\<close>

theorem scores_are_never_negative_counterexample:
  "\<not> (\<exists>(lib :: library) sp base_url cands u c.
         analyze_html lib sp base_url = Inr cands \<and> (u, c) \<in> set cands \<and> score c < 0)
   \<and> score_image example_lib ''https://acme.com'' ''acme''
        (''img'', [(''src'', AStr ''/f.png'')]) [(''footer'', []), document_tag] ''/f.png''
      = Inr (- 30, [''In Footer''])
   \<and> analyze_html example_lib footer_page ''https://acme.com'' =
        Inr [(''https://acme.com/f.png'', \<lparr>score = 0, reasons = {''In Footer''}\<rparr>)]"
proof -
  have "\<not> (\<exists>(lib :: library) sp base_url cands u c.
         analyze_html lib sp base_url = Inr cands \<and> (u, c) \<in> set cands \<and> score c < 0)"
    using candidate_nonneg by fastforce
  moreover have "score_image example_lib ''https://acme.com'' ''acme''
        (''img'', [(''src'', AStr ''/f.png'')]) [(''footer'', []), document_tag] ''/f.png''
      = Inr (- 30, [''In Footer''])"
    by code_simp
  moreover have "analyze_html example_lib footer_page ''https://acme.com'' =
        Inr [(''https://acme.com/f.png'', \<lparr>score = 0, reasons = {''In Footer''}\<rparr>)]"
    by code_simp
  ultimately show ?thesis by blast
qed

subsection \<open>Images without signals\<close>

lemma image_detections_tail:
  assumes "image_detections lib base stem (e # es) = Inr ds"
  shows "\<exists>ds'. image_detections lib base stem es = Inr ds' \<and> set ds' \<subseteq> set ds"
  using assms by (cases e) (auto split: option.splits attr_val.splits sum.splits if_splits)

lemma image_detections_member:
  assumes "image_detections lib base stem es = Inr ds"
    and "(img, parents) \<in> set es"
    and "get_attr img ''src'' = Some (AStr src)"
    and "src \<noteq> []"
  shows "\<exists>s rs. score_image lib base stem img parents src = Inr (s, rs)
           \<and> (Some src, s, join '', '' rs) \<in> set ds"
  using assms
proof (induction es arbitrary: ds)
  case Nil
  then show ?case by simp
next
  case (Cons e es)
  obtain img' parents' where e: "e = (img', parents')" by (cases e)
  show ?case
  proof (cases "e = (img, parents)")
    case True
    then have same: "img' = img" "parents' = parents" using e by simp_all
    then show ?thesis
      using Cons.prems(1,3,4) unfolding e
      by (auto split: sum.splits)
  next
    case False
    then have mem: "(img, parents) \<in> set es" using Cons.prems(2) by simp
    from image_detections_tail[OF Cons.prems(1)]
    obtain ds' where tl: "image_detections lib base stem es = Inr ds'"
      and sub: "set ds' \<subseteq> set ds" by blast
    from Cons.IH[OF tl mem Cons.prems(3,4)] sub show ?thesis by blast
  qed
qed

lemma detections_images:
  assumes "detections lib sp base = Inr dets"
  shows "\<exists>ids. image_detections lib base (extract_domain_stem lib base) (find_all_imgs sp) = Inr ids
           \<and> set ids \<subseteq> set dets"
  using assms by (auto simp: detections_def split: sum.splits)

lemma score_image_no_reason:
  assumes "score_image lib base stem img parents src = Inr (s, [])"
  shows "s = 0"
  using assms by (auto simp: score_image_def Let_def split: sum.splits if_splits)

text \<open>
  Claim C9, amended. When the scorer returns, every \<open>img\<close> tag whose \<open>src\<close> is a string that
  normalizes to an http or https URL has that URL among the candidates, whether or not a
  heuristic fired on it: the comma-joined string of the image's reasons is one of the
  candidate's signals and the candidate's score is at least 0 and at least the image's
  additive score. An image with no reason has additive score 0 and the empty label; if
  it is the only detection of its URL, the candidate has score 0 and the empty label as
  its single signal.
\<close>

theorem every_image_is_a_candidate:
  assumes "analyze_html lib sp base_url = Inr cands"
    and "(img, parents) \<in> set (find_all_imgs sp)"
    and "get_attr img ''src'' = Some (AStr src)"
    and "normalize_url lib base_url (Some src) = Some u"
  shows "\<exists>s rs c dets.
      score_image lib base_url (extract_domain_stem lib base_url) img parents src = Inr (s, rs)
      \<and> detections lib sp base_url = Inr dets
      \<and> (Some src, s, join '', '' rs) \<in> set dets
      \<and> map_of cands u = Some c
      \<and> join '', '' rs \<in> reasons c \<and> s \<le> score c \<and> 0 \<le> score c
      \<and> (rs = [] \<longrightarrow> s = 0 \<and> join '', '' rs = [])
      \<and> (contributions lib base_url dets u = [(s, join '', '' rs)] \<longrightarrow>
            c = \<lparr>score = max 0 s, reasons = {join '', '' rs}\<rparr>)"
proof -
  from analyze_html_result[OF assms(1)]
  obtain dets where d: "detections lib sp base_url = Inr dets"
    and c: "cands = apply_detections lib base_url dets []" by blast
  let ?stem = "extract_domain_stem lib base_url"
  from detections_images[OF d]
  obtain ids where ids: "image_detections lib base_url ?stem (find_all_imgs sp) = Inr ids"
    and sub: "set ids \<subseteq> set dets" by blast
  have ne: "src \<noteq> []" using assms(4) by (auto simp: normalize_url_def)
  from image_detections_member[OF ids assms(2,3) ne]
  obtain s rs where sc: "score_image lib base_url ?stem img parents src = Inr (s, rs)"
    and mem: "(Some src, s, join '', '' rs) \<in> set dets" using sub by blast
  let ?hits = "contributions lib base_url dets u"
  have hit: "(s, join '', '' rs) \<in> set ?hits"
    using mem assms(4) by (force simp: contributions_def)
  then have nonempty: "?hits \<noteq> []" by auto
  let ?c = "\<lparr>score = Max (set (0 # map fst ?hits)), reasons = set (map snd ?hits)\<rparr>"
  have m: "map_of cands u = Some ?c"
    unfolding c map_of_apply_detections_empty using nonempty by simp
  have r: "join '', '' rs \<in> reasons ?c" using hit by force
  have "s \<in> set (0 # map fst ?hits)" using hit by force
  then have ge: "s \<le> score ?c" by simp
  have z: "0 \<le> score ?c" by simp
  have e: "rs = [] \<longrightarrow> s = 0 \<and> join '', '' rs = []"
  proof
    assume "rs = []"
    with sc have "score_image lib base_url ?stem img parents src = Inr (s, [])" by simp
    then have "s = 0" by (rule score_image_no_reason)
    with \<open>rs = []\<close> show "s = 0 \<and> join '', '' rs = []" by simp
  qed
  have only: "?hits = [(s, join '', '' rs)] \<longrightarrow> ?c = \<lparr>score = max 0 s, reasons = {join '', '' rs}\<rparr>"
    by (auto simp: max_def)
  show ?thesis using sc d mem m r ge z e only by blast
qed

lemma plain_image_eval:
  "analyze_html example_lib plain_image_page ''https://acme.com'' =
     Inr [(''https://acme.com/pic.png'', \<lparr>score = 0, reasons = {[]}\<rparr>)]"
  "((''img'', [(''src'', AStr ''/pic.png'')]), [(''p'', []), document_tag])
     \<in> set (find_all_imgs plain_image_page)"
  "get_attr (''img'', [(''src'', AStr ''/pic.png'')]) ''src'' = Some (AStr ''/pic.png'')"
  "normalize_url example_lib ''https://acme.com'' (Some ''/pic.png'') = Some ''https://acme.com/pic.png''"
  "score_image example_lib ''https://acme.com'' (extract_domain_stem example_lib ''https://acme.com'')
     (''img'', [(''src'', AStr ''/pic.png'')]) [(''p'', []), document_tag] ''/pic.png'' = Inr (0, [])"
  by code_simp+

theorem every_image_is_a_candidate_witness:
  "analyze_html example_lib plain_image_page ''https://acme.com'' =
     Inr [(''https://acme.com/pic.png'', \<lparr>score = 0, reasons = {[]}\<rparr>)]
   \<and> ((''img'', [(''src'', AStr ''/pic.png'')]), [(''p'', []), document_tag])
        \<in> set (find_all_imgs plain_image_page)
   \<and> get_attr (''img'', [(''src'', AStr ''/pic.png'')]) ''src'' = Some (AStr ''/pic.png'')
   \<and> normalize_url example_lib ''https://acme.com'' (Some ''/pic.png'') = Some ''https://acme.com/pic.png''
   \<and> score_image example_lib ''https://acme.com'' (extract_domain_stem example_lib ''https://acme.com'')
        (''img'', [(''src'', AStr ''/pic.png'')]) [(''p'', []), document_tag] ''/pic.png'' = Inr (0, [])
   \<and> (\<exists>c. map_of [(''https://acme.com/pic.png'', \<lparr>score = 0, reasons = {[]}\<rparr>)] ''https://acme.com/pic.png''
             = Some c \<and> join '', '' [] \<in> reasons c \<and> 0 \<le> score c)"
proof -
  note e = plain_image_eval
  from every_image_is_a_candidate[OF e(1) e(2) e(3) e(4)]
  obtain s rs c where
    "score_image example_lib ''https://acme.com'' (extract_domain_stem example_lib ''https://acme.com'')
        (''img'', [(''src'', AStr ''/pic.png'')]) [(''p'', []), document_tag] ''/pic.png'' = Inr (s, rs)"
    and "map_of [(''https://acme.com/pic.png'', \<lparr>score = 0, reasons = {[]}\<rparr>)] ''https://acme.com/pic.png'' = Some c"
    and "join '', '' rs \<in> reasons c" and "0 \<le> score c"
    by blast
  then have "\<exists>c. map_of [(''https://acme.com/pic.png'', \<lparr>score = 0, reasons = {[]}\<rparr>)] ''https://acme.com/pic.png''
             = Some c \<and> join '', '' [] \<in> reasons c \<and> 0 \<le> score c"
    using e(5) by auto
  with e show ?thesis by blast
qed

text \<open>
  The claim as stated fails: on a page with an icon link and an image of the same
  source, no heuristic fires on the image (its additive score is 0 and it has no
  reason), but its candidate has score 10 and two signal labels.
\<close>

theorem every_image_is_a_candidate_counterexample:
  "((''img'', [(''src'', AStr ''/pic.png'')]), [(''p'', []), document_tag])
        \<in> set (find_all_imgs icon_and_plain_image_page)
   \<and> normalize_url example_lib ''https://acme.com'' (Some ''/pic.png'') = Some ''https://acme.com/pic.png''
   \<and> score_image example_lib ''https://acme.com'' (extract_domain_stem example_lib ''https://acme.com'')
        (''img'', [(''src'', AStr ''/pic.png'')]) [(''p'', []), document_tag] ''/pic.png'' = Inr (0, [])
   \<and> analyze_html example_lib icon_and_plain_image_page ''https://acme.com'' =
        Inr [(''https://acme.com/pic.png'', \<lparr>score = 10, reasons = {''Favicon/Touch Icon'', []}\<rparr>)]
   \<and> extract_logo_main example_lib icon_and_plain_image_page ''https://acme.com'' =
        Inr [(1, 10, ''https://acme.com/pic.png'', {''Favicon/Touch Icon'', []})]
   \<and> {''Favicon/Touch Icon'', []} \<noteq> {[] :: string}"
proof -
  have a: "((''img'', [(''src'', AStr ''/pic.png'')]), [(''p'', []), document_tag])
        \<in> set (find_all_imgs icon_and_plain_image_page)" by code_simp
  have b: "normalize_url example_lib ''https://acme.com'' (Some ''/pic.png'') = Some ''https://acme.com/pic.png''"
    by code_simp
  have c: "score_image example_lib ''https://acme.com'' (extract_domain_stem example_lib ''https://acme.com'')
        (''img'', [(''src'', AStr ''/pic.png'')]) [(''p'', []), document_tag] ''/pic.png'' = Inr (0, [])"
    by code_simp
  have d: "analyze_html example_lib icon_and_plain_image_page ''https://acme.com'' =
        Inr [(''https://acme.com/pic.png'', \<lparr>score = 10, reasons = {''Favicon/Touch Icon'', []}\<rparr>)]"
    by code_simp
  have e: "extract_logo_main example_lib icon_and_plain_image_page ''https://acme.com'' =
        Inr [(1, 10, ''https://acme.com/pic.png'', {''Favicon/Touch Icon'', []})]"
    by code_simp
  have f: "{''Favicon/Touch Icon'', []} \<noteq> {[] :: string}" by auto
  show ?thesis using a b c d e f by (intro conjI)
qed

subsection \<open>A block that does not parse\<close>

lemma all_tags_forest: "all_tags sp = forest [document_tag] sp"
  by (simp add: all_tags_def forest_def)

lemma forest_append: "forest anc (xs @ ys) = forest anc xs @ forest anc ys"
  by (simp add: forest_def)

lemma forest_Cons: "forest anc (x # xs) = descendants anc x @ forest anc xs"
  by (simp add: forest_def)

lemma forest_Tag:
  "forest anc (Tag n a cs # ys) = ((n, a), anc, cs) # forest ((n, a) # anc) cs @ forest anc ys"
  by (simp add: forest_def)

text \<open>
  A query keeps the tags that satisfy \<open>P\<close> and reads \<open>g\<close> off each; \<open>g\<close> looks at the
  children of \<open>script\<close> tags only. Inserting a script tag adds at most that tag's entry.
\<close>

lemma inserted_query:
  fixes g :: "tag \<times> tag list \<times> node list \<Rightarrow> 'r"
  assumes ins: "inserted b cs cs'" and b: "b = Tag ''script'' a [Text s]"
    and indep: "\<And>t anc ks ks'. P t \<Longrightarrow> fst t \<noteq> ''script'' \<Longrightarrow> g (t, anc, ks) = g (t, anc, ks')"
  shows "\<exists>U V anc'.
           map g (filter (\<lambda>e. P (fst e)) (forest anc cs)) = U @ V
         \<and> map g (filter (\<lambda>e. P (fst e)) (forest anc cs'))
             = U @ (if P (''script'', a) then [g ((''script'', a), anc', [Text s])] else []) @ V"
  using ins
proof (induction arbitrary: anc rule: inserted.induct)
  case (here xs ys)
  let ?q = "\<lambda>ns. map g (filter (\<lambda>e. P (fst e)) (forest anc ns))"
  have "?q (xs @ b # ys)
      = ?q xs @ (if P (''script'', a) then [g ((''script'', a), anc, [Text s])] else []) @ ?q ys"
    by (simp add: forest_append forest_Cons b)
  moreover have "?q (xs @ ys) = ?q xs @ ?q ys" by (simp add: forest_append)
  ultimately show ?case by blast
next
  case (below cs cs' n xs a' ys)
  let ?q = "\<lambda>anc ns. map g (filter (\<lambda>e. P (fst e)) (forest anc ns))"
  let ?B = "\<lambda>anc'. if P (''script'', a) then [g ((''script'', a), anc', [Text s])] else []"
  from below.IH[of "(n, a') # anc"]
  obtain U V anc' where u: "?q ((n, a') # anc) cs = U @ V"
    and u': "?q ((n, a') # anc) cs' = U @ ?B anc' @ V" by blast
  let ?h = "\<lambda>ks. if P (n, a') then [g ((n, a'), anc, ks)] else []"
  have h: "?h cs = ?h cs'" using indep[of "(n, a')" anc cs cs'] below.hyps(2) by simp
  have "?q anc (xs @ Tag n a' cs # ys) = (?q anc xs @ ?h cs @ U) @ (V @ ?q anc ys)"
    using u by (simp add: forest_append forest_Tag)
  moreover have "?q anc (xs @ Tag n a' cs' # ys) = (?q anc xs @ ?h cs @ U) @ ?B anc' @ (V @ ?q anc ys)"
    using u' h by (simp add: forest_append forest_Tag)
  ultimately show ?case by blast
qed

lemma inserted_scripts:
  assumes "inserted b sp sp'" and "b = Tag ''script'' a [Text s]"
    and "attr_is (map_of a ''type'') ''application/ld+json''"
  shows "\<exists>U V. find_all_scripts sp = U @ V \<and> find_all_scripts sp' = U @ [Some s] @ V"
proof -
  let ?P = "\<lambda>t. fst t = ''script'' \<and> attr_is (get_attr t ''type'') ''application/ld+json''"
  let ?g = "\<lambda>e :: tag \<times> tag list \<times> node list. tag_string (snd (snd e))"
  have q: "find_all_scripts x = map ?g (filter (\<lambda>e. ?P (fst e)) (forest [document_tag] x))" for x
    by (simp add: find_all_scripts_def all_tags_forest case_prod_unfold)
  have P: "?P (''script'', a)" using assms(3) by (simp add: get_attr_def)
  from inserted_query[OF assms(1,2), of ?P ?g "[document_tag]"]
  show ?thesis unfolding q using P by auto
qed

lemma inserted_other:
  fixes g :: "tag \<times> tag list \<times> node list \<Rightarrow> 'r"
  assumes "inserted b sp sp'" and "b = Tag ''script'' a [Text s]"
    and "\<And>t. P t \<Longrightarrow> fst t \<noteq> ''script''"
    and "\<And>t anc ks ks'. g (t, anc, ks) = g (t, anc, ks')"
  shows "map g (filter (\<lambda>e. P (fst e)) (all_tags sp')) = map g (filter (\<lambda>e. P (fst e)) (all_tags sp))"
proof -
  have nP: "\<not> P (''script'', a)" using assms(3)[of "(''script'', a)"] by auto
  from inserted_query[OF assms(1,2), of P g "[document_tag]"] assms(4)
  show ?thesis unfolding all_tags_forest using nP by auto
qed

lemma inserted_links:
  assumes "inserted b sp sp'" and "b = Tag ''script'' a [Text s]"
  shows "find_all_links sp' = find_all_links sp"
proof -
  have q: "find_all_links x
      = map fst (filter (\<lambda>e. fst (fst e) = ''link'' \<and> rel_matches (get_attr (fst e) ''rel'')) (all_tags x))" for x
    by (simp add: find_all_links_def case_prod_unfold)
  show ?thesis unfolding q
    by (rule inserted_other[OF assms, where P = "\<lambda>t. fst t = ''link'' \<and> rel_matches (get_attr t ''rel'')"]) auto
qed

lemma inserted_imgs:
  assumes "inserted b sp sp'" and "b = Tag ''script'' a [Text s]"
  shows "find_all_imgs sp' = find_all_imgs sp"
proof -
  have q: "find_all_imgs x
      = map (\<lambda>e. (fst e, fst (snd e))) (filter (\<lambda>e. fst (fst e) = ''img'') (all_tags x))" for x
    by (simp add: find_all_imgs_def case_prod_unfold)
  show ?thesis unfolding q
    by (rule inserted_other[OF assms, where P = "\<lambda>t. fst t = ''img''"]) auto
qed

lemma inserted_og_image:
  assumes "inserted b sp sp'" and "b = Tag ''script'' a [Text s]"
  shows "find_og_image sp' = find_og_image sp"
proof -
  let ?P = "\<lambda>t. fst t = ''meta'' \<and> attr_is (get_attr t ''property'') ''og:image''"
  have q: "find_og_image x
      = (case map fst (filter (\<lambda>e. ?P (fst e)) (all_tags x)) of [] \<Rightarrow> None | t # rest \<Rightarrow> Some t)" for x
    by (simp add: find_og_image_def case_prod_unfold split: list.splits)
  have "map fst (filter (\<lambda>e. ?P (fst e)) (all_tags sp')) = map fst (filter (\<lambda>e. ?P (fst e)) (all_tags sp))"
    by (rule inserted_other[OF assms, where P = ?P]) auto
  then show ?thesis unfolding q by simp
qed

lemma scan_script_unparsed:
  "json_loads lib s = None \<Longrightarrow> scan_script lib base cands (Some s) = cands"
  by (simp add: scan_script_def)

text \<open>
  Claim C8. A structured-data block on which \<open>json.loads\<close> raises is skipped: scanning
  it returns the candidates unchanged, and a document with such a block inserted anywhere
  gives the same result as the document without it, for the analysis and for the ranked
  output, error or not.
\<close>

theorem malformed_block_is_skipped:
  assumes "malformed_block lib b" and "inserted b sp sp'"
  shows "analyze_html lib sp' base_url = analyze_html lib sp base_url
    \<and> extract_logo_main lib sp' url_arg = extract_logo_main lib sp url_arg
    \<and> (\<exists>a s. b = Tag ''script'' a [Text s]
           \<and> (\<forall>cands. scan_script lib base_url cands (tag_string [Text s]) = cands))
    \<and> (\<exists>U V s. find_all_scripts sp = U @ V \<and> find_all_scripts sp' = U @ [Some s] @ V
           \<and> scan_scripts lib base_url sp' [] = scan_scripts lib base_url sp [])"
proof -
  from assms(1) obtain a s where b: "b = Tag ''script'' a [Text s]"
    and ty: "attr_is (map_of a ''type'') ''application/ld+json''"
    and bad: "json_loads lib s = None"
    unfolding malformed_block_def by blast
  from inserted_scripts[OF assms(2) b ty]
  obtain U V where u: "find_all_scripts sp = U @ V" and u': "find_all_scripts sp' = U @ [Some s] @ V"
    by blast
  have skip: "scan_script lib base cands (Some s) = cands" for base cands
    using bad by (rule scan_script_unparsed)
  have sc: "scan_scripts lib base sp' cands = scan_scripts lib base sp cands" for base cands
    unfolding scan_scripts_def u u' by (simp add: skip)
  have bi: "before_images lib sp' base = before_images lib sp base" for base
    by (simp add: before_images_def sc scan_links_def scan_og_image_def
          inserted_links[OF assms(2) b] inserted_og_image[OF assms(2) b])
  have an: "analyze_html lib sp' base = analyze_html lib sp base" for base
    by (simp add: analyze_html_def bi inserted_imgs[OF assms(2) b])
  have mn: "extract_logo_main lib sp' url_arg = extract_logo_main lib sp url_arg"
    by (simp add: extract_logo_main_def Let_def an split: option.splits)
  have own: "\<exists>a s. b = Tag ''script'' a [Text s]
           \<and> (\<forall>cands. scan_script lib base_url cands (tag_string [Text s]) = cands)"
    using b skip by simp
  have q: "\<exists>U V s. find_all_scripts sp = U @ V \<and> find_all_scripts sp' = U @ [Some s] @ V
           \<and> scan_scripts lib base_url sp' [] = scan_scripts lib base_url sp []"
    using u u' sc by blast
  show ?thesis using an mn own q by blast
qed

lemma broken_block_malformed: "malformed_block example_lib broken_block"
proof -
  have "json_loads example_lib ''{not json'' = None" by code_simp
  moreover have "attr_is (map_of [(''type'', AStr ''application/ld+json'')] ''type'') ''application/ld+json''"
    by code_simp
  ultimately show ?thesis unfolding malformed_block_def broken_block_def by blast
qed

lemma broken_block_inserted: "inserted broken_block org_page org_page_with_broken_block"
proof -
  have "inserted broken_block ([] @ [org_script]) ([] @ broken_block # [org_script])"
    by (rule inserted.here)
  then have "inserted broken_block
      ([] @ Tag ''head'' [] ([] @ [org_script]) # [Tag ''body'' [] [Tag ''img'' [(''src'', AStr ''/logo.png'')] []]])
      ([] @ Tag ''head'' [] ([] @ broken_block # [org_script]) # [Tag ''body'' [] [Tag ''img'' [(''src'', AStr ''/logo.png'')] []]])"
    by (rule inserted.below) simp
  then show ?thesis by (simp add: org_page_def org_page_with_broken_block_def)
qed

theorem malformed_block_is_skipped_witness:
  "malformed_block example_lib broken_block
   \<and> inserted broken_block org_page org_page_with_broken_block
   \<and> analyze_html example_lib org_page ''https://acme.com'' =
       Inr [(''https://acme.com/brand.png'', \<lparr>score = 60, reasons = {''Schema.org Organization''}\<rparr>),
            (''https://acme.com/logo.png'', \<lparr>score = 20, reasons = {''Keyword Match (logo/brand)''}\<rparr>)]
   \<and> analyze_html example_lib org_page_with_broken_block ''https://acme.com'' =
       Inr [(''https://acme.com/brand.png'', \<lparr>score = 60, reasons = {''Schema.org Organization''}\<rparr>),
            (''https://acme.com/logo.png'', \<lparr>score = 20, reasons = {''Keyword Match (logo/brand)''}\<rparr>)]"
proof -
  have e: "analyze_html example_lib org_page ''https://acme.com'' =
       Inr [(''https://acme.com/brand.png'', \<lparr>score = 60, reasons = {''Schema.org Organization''}\<rparr>),
            (''https://acme.com/logo.png'', \<lparr>score = 20, reasons = {''Keyword Match (logo/brand)''}\<rparr>)]"
    by code_simp
  from malformed_block_is_skipped[OF broken_block_malformed broken_block_inserted, of "''https://acme.com''"]
  have "analyze_html example_lib org_page_with_broken_block ''https://acme.com''
      = analyze_html example_lib org_page ''https://acme.com''" by blast
  with e broken_block_malformed broken_block_inserted show ?thesis by simp
qed

subsection \<open>Order of the ranked output\<close>

text \<open>
  The ranked list holds the candidates by descending score, and candidates with equal
  scores in the order of the candidate dictionary, which is the order of first discovery.
\<close>

lemma ranked_descending: "sorted (map (\<lambda>(url, data). - score data) (ranked cands))"
  by (simp add: ranked_def)

lemma ranked_stable:
  "filter (\<lambda>(url, data). score data = k) (ranked cands) = filter (\<lambda>(url, data). score data = k) cands"
proof -
  have eq: "(\<lambda>(url :: string, data :: candidate). score data = k)
      = (\<lambda>e. (case e of (url, data) \<Rightarrow> - score data) = - k)"
    by (auto simp: fun_eq_iff)
  show ?thesis unfolding ranked_def eq by (rule sort_key_stable)
qed

lemma ranked_same_candidates: "mset (ranked cands) = mset cands"
  by (simp add: ranked_def)

text \<open>The serialised output as one map over the numbered ranked candidates.\<close>

lemma serialized_results:
  "serialized listing (results_of cands) =
     map (\<lambda>(i, url, data). (Suc i, score data, url, listing (reasons data)))
       (zip [0 ..< length (ranked cands)] (ranked cands))"
  by (simp add: serialized_def results_of_def case_prod_unfold comp_def)

lemma numbered_map_snd:
  "length xs = length ys \<Longrightarrow> map (\<lambda>(i, e). g e) (zip xs ys) = map g ys"
  by (induction xs ys rule: list_induct2) simp_all

lemma numbered_map_fst:
  "length xs = length ys \<Longrightarrow> map (\<lambda>(i, e). h i) (zip xs ys) = map h xs"
  by (induction xs ys rule: list_induct2) simp_all

lemma numbered_filter_snd:
  "length xs = length ys \<Longrightarrow>
   map (\<lambda>(i, e). g e) (filter (\<lambda>(i, e). P e) (zip xs ys)) = map g (filter P ys)"
  by (induction xs ys rule: list_induct2) simp_all

lemma serialized_ranks:
  "map (\<lambda>(rank, s, url, labels). rank) (serialized listing (results_of cands))
     = [1 ..< Suc (length (serialized listing (results_of cands)))]"
proof -
  let ?r = "ranked cands"
  have "map (\<lambda>(rank, s, url, labels). rank) (serialized listing (results_of cands))
      = map (\<lambda>(i, e). Suc i) (zip [0 ..< length ?r] ?r)"
    unfolding serialized_results by (simp add: case_prod_unfold comp_def)
  also have "\<dots> = map Suc [0 ..< length ?r]" by (rule numbered_map_fst) simp
  also have "\<dots> = [1 ..< Suc (length ?r)]" by (simp add: map_Suc_upt)
  finally show ?thesis by (simp add: serialized_results)
qed

lemma serialized_descending:
  "sorted (map (\<lambda>(rank, s, url, labels). - s) (serialized listing (results_of cands)))"
proof -
  let ?r = "ranked cands"
  have "map (\<lambda>(rank, s, url, labels). - s) (serialized listing (results_of cands))
      = map (\<lambda>(i, e). (case e of (url, data) \<Rightarrow> - score data)) (zip [0 ..< length ?r] ?r)"
    unfolding serialized_results by (simp add: case_prod_unfold comp_def)
  also have "\<dots> = map (\<lambda>(url, data). - score data) ?r" by (rule numbered_map_snd) simp
  finally show ?thesis using ranked_descending[of cands] by simp
qed

lemma serialized_ties:
  "map (\<lambda>(rank, s, url, labels). url)
       (filter (\<lambda>(rank, s, url, labels). s = k) (serialized listing (results_of cands)))
     = map fst (filter (\<lambda>(url, data). score data = k) cands)"
proof -
  let ?r = "ranked cands"
  have "map (\<lambda>(rank, s, url, labels). url)
       (filter (\<lambda>(rank, s, url, labels). s = k) (serialized listing (results_of cands)))
      = map (\<lambda>(i, e). fst e) (filter (\<lambda>(i, e). (case e of (url, data) \<Rightarrow> score data = k)) (zip [0 ..< length ?r] ?r))"
    unfolding serialized_results by (simp add: filter_map case_prod_unfold comp_def)
  also have "\<dots> = map fst (filter (\<lambda>(url, data). score data = k) ?r)"
    by (rule numbered_filter_snd) simp
  finally show ?thesis by (simp only: ranked_stable)
qed

lemma serialized_labels:
  assumes l: "lists_each_once listing"
    and fin: "\<forall>(url, data)\<in>set cands. finite (reasons data)"
  shows "map (\<lambda>(rank, s, url, labels). (rank, s, url, set labels)) (serialized listing (results_of cands))
           = results_of cands"
    and "\<forall>(rank, s, url, labels)\<in>set (serialized listing (results_of cands)). distinct labels"
proof -
  have f: "finite signals" if "(rank, s, url, signals) \<in> set (results_of cands)" for rank s url signals
  proof -
    from that obtain i u d where "(i, u, d) \<in> set (zip [0 ..< length (ranked cands)] (ranked cands))"
      and "signals = reasons d" by (auto simp: results_of_def)
    then have "(u, d) \<in> set (ranked cands)" by (auto dest: set_zip_rightD)
    then have "(u, d) \<in> set cands" using ranked_same_candidates[of cands] by (metis mset_eq_setD)
    then show ?thesis using fin \<open>signals = reasons d\<close> by auto
  qed
  have "map (\<lambda>(rank, s, url, labels). (rank, s, url, set labels)) (serialized listing (results_of cands))
      = map (\<lambda>(rank, s, url, signals). (rank, s, url, set (listing signals))) (results_of cands)"
    by (simp add: serialized_def case_prod_unfold comp_def)
  also have "\<dots> = map (\<lambda>e. e) (results_of cands)"
  proof (rule map_cong[OF refl])
    fix e assume e: "e \<in> set (results_of cands)"
    obtain rank s url signals where e': "e = (rank, s, url, signals)" by (cases e)
    have "finite signals" using f e unfolding e' by blast
    then have "set (listing signals) = signals" using l by (simp add: lists_each_once_def)
    then show "(case e of (rank, s, url, signals) \<Rightarrow> (rank, s, url, set (listing signals))) = e"
      by (simp add: e')
  qed
  finally show "map (\<lambda>(rank, s, url, labels). (rank, s, url, set labels)) (serialized listing (results_of cands))
           = results_of cands" by simp
  show "\<forall>(rank, s, url, labels)\<in>set (serialized listing (results_of cands)). distinct labels"
  proof (clarify)
    fix rank s url labels
    assume "(rank, s, url, labels) \<in> set (serialized listing (results_of cands))"
    then obtain signals where m: "(rank, s, url, signals) \<in> set (results_of cands)"
      and lb: "labels = listing signals" by (auto simp: serialized_def)
    have "finite signals" using f m by blast
    then show "distinct labels" using l lb by (simp add: lists_each_once_def)
  qed
qed
text \<open>
  The keys of the candidate dictionary are the normalized URLs of the detections, in the
  order in which each is first detected.
\<close>

lemma keys_upsert_list:
  "map fst (upsert cands u s r) = (if u \<in> set (map fst cands) then map fst cands else map fst cands @ [u])"
  by (induction cands u s r rule: upsert.induct) auto

lemma keys_apply_detections:
  "map fst (apply_detections lib base dets [])
     = first_occ (List.map_filter (\<lambda>(url, s, r). normalize_url lib base url) dets)"
proof (induction dets rule: rev_induct)
  case Nil
  show ?case by (simp add: apply_detections_Nil first_occ_Nil map_filter_simps)
next
  case (snoc d dets)
  obtain url s r where d: "d = (url, s, r)" by (cases d)
  let ?k = "\<lambda>(url, s, r). normalize_url lib base url"
  let ?keys = "List.map_filter ?k dets"
  let ?c = "apply_detections lib base dets []"
  have step: "apply_detections lib base (dets @ [d]) [] = update_candidate lib base ?c url s r"
    by (simp add: apply_detections_append d apply_detections_Cons apply_detections_Nil)
  have mf: "List.map_filter ?k (dets @ [d])
      = ?keys @ (case normalize_url lib base url of None \<Rightarrow> [] | Some v \<Rightarrow> [v])"
    unfolding map_filter_def d by (simp split: option.splits)
  show ?case
  proof (cases "normalize_url lib base url")
    case None
    have u: "update_candidate lib base ?c url s r = ?c"
      using None by (simp add: update_candidate_def)
    show ?thesis unfolding step u mf None option.case append_Nil2 by (rule snoc.IH)
  next
    case (Some v)
    have u: "update_candidate lib base ?c url s r = upsert ?c v s r"
      using Some by (simp add: update_candidate_def)
    have "map fst (upsert ?c v s r)
        = (if v \<in> set ?keys then first_occ ?keys else first_occ ?keys @ [v])"
      unfolding keys_upsert_list snoc.IH set_first_occ ..
    then show ?thesis unfolding step u mf Some option.case first_occ_snoc .
  qed
qed

lemma candidate_signals_finite:
  assumes "analyze_html lib sp base = Inr cands"
  shows "\<forall>(url, data)\<in>set cands. finite (reasons data)"
proof (clarify)
  fix u c assume mem: "(u, c) \<in> set cands"
  from analyze_html_result[OF assms]
  obtain dets where c: "cands = apply_detections lib base dets []" by blast
  have "distinct (map fst cands)" unfolding c by (rule distinct_apply_detections) simp
  then have "map_of cands u = Some c" using mem by simp
  then have "c = \<lparr>score = Max (set (0 # map fst (contributions lib base dets u))),
                  reasons = set (map snd (contributions lib base dets u))\<rparr>"
    unfolding c map_of_apply_detections_empty by (simp split: if_splits)
  then have "reasons c = set (map snd (contributions lib base dets u))" by simp
  then show "finite (reasons c)" by simp
qed

lemma extract_logo_main_cases:
  "(\<exists>e. extract_logo_main lib sp url_arg = Inl e) \<or>
   (\<exists>base_url cands. analyze_html lib sp base_url = Inr cands
      \<and> extract_logo_main lib sp url_arg = Inr (results_of cands))"
  by (cases "extract_logo_main lib sp url_arg")
     (auto simp: extract_logo_main_def Let_def split: option.splits sum.splits)

text \<open>
  Claim C7, amended. Two runs of the scorer on the same document and base URL, each
  listing the signal sets in its own order: either both raise the same error, or both
  return, and their outputs agree entry by entry in rank, score and URL and in the set of
  labels of the signal list, every label being listed once; the outputs can differ only
  in the order of the labels within a signal list. The entries are numbered from 1 and
  stand by descending score; entries with the same score stand in the order of the
  candidate dictionary, which is the order in which their URLs are first detected.
\<close>

theorem ranked_output_up_to_label_order:
  assumes "lists_each_once listing1" and "lists_each_once listing2"
  shows "case extract_logo_output lib listing1 sp url_arg of
      Inl e \<Rightarrow> extract_logo_output lib listing2 sp url_arg = Inl e
    | Inr out1 \<Rightarrow>
        (\<exists>out2 base_url dets cands.
           extract_logo_output lib listing2 sp url_arg = Inr out2
           \<and> map (\<lambda>(rank, s, url, labels). (rank, s, url, set labels)) out1
               = map (\<lambda>(rank, s, url, labels). (rank, s, url, set labels)) out2
           \<and> (\<forall>(rank, s, url, labels)\<in>set out1. distinct labels)
           \<and> (\<forall>(rank, s, url, labels)\<in>set out2. distinct labels)
           \<and> map (\<lambda>(rank, s, url, labels). rank) out1 = [1 ..< Suc (length out1)]
           \<and> sorted (map (\<lambda>(rank, s, url, labels). - s) out1)
           \<and> detections lib sp base_url = Inr dets
           \<and> analyze_html lib sp base_url = Inr cands
           \<and> map fst cands = first_occ (List.map_filter (\<lambda>(url, s, r). normalize_url lib base_url url) dets)
           \<and> (\<forall>k. map (\<lambda>(rank, s, url, labels). url) (filter (\<lambda>(rank, s, url, labels). s = k) out1)
                    = map fst (filter (\<lambda>(url, data). score data = k) cands)))"
proof -
  from extract_logo_main_cases[of lib sp url_arg]
  consider e where "extract_logo_main lib sp url_arg = Inl e"
    | base_url cands where "analyze_html lib sp base_url = Inr cands"
        and "extract_logo_main lib sp url_arg = Inr (results_of cands)"
    by blast
  then show ?thesis
  proof cases
    case 1
    then show ?thesis by (simp add: extract_logo_output_def)
  next
    case 2
    from analyze_html_result[OF 2(1)]
    obtain dets where d: "detections lib sp base_url = Inr dets"
      and c: "cands = apply_detections lib base_url dets []" by blast
    have fin: "\<forall>(url, data)\<in>set cands. finite (reasons data)"
      using 2(1) by (rule candidate_signals_finite)
    let ?out1 = "serialized listing1 (results_of cands)"
    let ?out2 = "serialized listing2 (results_of cands)"
    have o1: "extract_logo_output lib listing1 sp url_arg = Inr ?out1"
      and o2: "extract_logo_output lib listing2 sp url_arg = Inr ?out2"
      using 2(2) by (simp_all add: extract_logo_output_def)
    have same: "map (\<lambda>(rank, s, url, labels). (rank, s, url, set labels)) ?out1
        = map (\<lambda>(rank, s, url, labels). (rank, s, url, set labels)) ?out2"
      using serialized_labels(1)[OF assms(1) fin] serialized_labels(1)[OF assms(2) fin] by simp
    have d1: "\<forall>(rank, s, url, labels)\<in>set ?out1. distinct labels"
      using assms(1) fin by (rule serialized_labels(2))
    have d2: "\<forall>(rank, s, url, labels)\<in>set ?out2. distinct labels"
      using assms(2) fin by (rule serialized_labels(2))
    have rk: "map (\<lambda>(rank, s, url, labels). rank) ?out1 = [1 ..< Suc (length ?out1)]"
      by (rule serialized_ranks)
    have ds: "sorted (map (\<lambda>(rank, s, url, labels). - s) ?out1)"
      by (rule serialized_descending)
    have keys: "map fst cands = first_occ (List.map_filter (\<lambda>(url, s, r). normalize_url lib base_url url) dets)"
      unfolding c by (rule keys_apply_detections)
    have ties: "\<forall>k. map (\<lambda>(rank, s, url, labels). url) (filter (\<lambda>(rank, s, url, labels). s = k) ?out1)
                    = map fst (filter (\<lambda>(url, data). score data = k) cands)"
      using serialized_ties by blast
    have "extract_logo_output lib listing2 sp url_arg = Inr ?out2
           \<and> map (\<lambda>(rank, s, url, labels). (rank, s, url, set labels)) ?out1
               = map (\<lambda>(rank, s, url, labels). (rank, s, url, set labels)) ?out2
           \<and> (\<forall>(rank, s, url, labels)\<in>set ?out1. distinct labels)
           \<and> (\<forall>(rank, s, url, labels)\<in>set ?out2. distinct labels)
           \<and> map (\<lambda>(rank, s, url, labels). rank) ?out1 = [1 ..< Suc (length ?out1)]
           \<and> sorted (map (\<lambda>(rank, s, url, labels). - s) ?out1)
           \<and> detections lib sp base_url = Inr dets
           \<and> analyze_html lib sp base_url = Inr cands
           \<and> map fst cands = first_occ (List.map_filter (\<lambda>(url, s, r). normalize_url lib base_url url) dets)
           \<and> (\<forall>k. map (\<lambda>(rank, s, url, labels). url) (filter (\<lambda>(rank, s, url, labels). s = k) ?out1)
                    = map fst (filter (\<lambda>(url, data). score data = k) cands))"
      using o2 same d1 d2 rk ds d 2(1) keys ties by (intro conjI)
    then have "\<exists>out2 base_url dets cands.
           extract_logo_output lib listing2 sp url_arg = Inr out2
           \<and> map (\<lambda>(rank, s, url, labels). (rank, s, url, set labels)) ?out1
               = map (\<lambda>(rank, s, url, labels). (rank, s, url, set labels)) out2
           \<and> (\<forall>(rank, s, url, labels)\<in>set ?out1. distinct labels)
           \<and> (\<forall>(rank, s, url, labels)\<in>set out2. distinct labels)
           \<and> map (\<lambda>(rank, s, url, labels). rank) ?out1 = [1 ..< Suc (length ?out1)]
           \<and> sorted (map (\<lambda>(rank, s, url, labels). - s) ?out1)
           \<and> detections lib sp base_url = Inr dets
           \<and> analyze_html lib sp base_url = Inr cands
           \<and> map fst cands = first_occ (List.map_filter (\<lambda>(url, s, r). normalize_url lib base_url url) dets)
           \<and> (\<forall>k. map (\<lambda>(rank, s, url, labels). url) (filter (\<lambda>(rank, s, url, labels). s = k) ?out1)
                    = map fst (filter (\<lambda>(url, data). score data = k) cands))"
      by blast
    then show ?thesis by (simp only: o1 sum.case)
  qed
qed

lemma listings_list_each_once:
  "lists_each_once listing_ascending" "lists_each_once listing_descending"
  by (simp_all add: lists_each_once_def listing_ascending_def listing_descending_def)

lemma icon_and_image_outputs:
  "extract_logo_output example_lib listing_ascending icon_and_image_page ''https://acme.com''
     = Inr [(1, 20, ''https://acme.com/logo.png'', [''Favicon/Touch Icon'', ''Keyword Match (logo/brand)''])]"
  "extract_logo_output example_lib listing_descending icon_and_image_page ''https://acme.com''
     = Inr [(1, 20, ''https://acme.com/logo.png'', [''Keyword Match (logo/brand)'', ''Favicon/Touch Icon''])]"
  by code_simp+

theorem ranked_output_up_to_label_order_witness:
  "lists_each_once listing_ascending \<and> lists_each_once listing_descending
   \<and> extract_logo_output example_lib listing_ascending icon_and_image_page ''https://acme.com''
       = Inr [(1, 20, ''https://acme.com/logo.png'', [''Favicon/Touch Icon'', ''Keyword Match (logo/brand)''])]
   \<and> (\<exists>out2. extract_logo_output example_lib listing_descending icon_and_image_page ''https://acme.com'' = Inr out2
         \<and> map (\<lambda>(rank, s, url, labels). (rank, s, url, set labels))
               [(1, 20, ''https://acme.com/logo.png'', [''Favicon/Touch Icon'', ''Keyword Match (logo/brand)''])]
             = map (\<lambda>(rank, s, url, labels). (rank, s, url, set labels)) out2)"
proof -
  note l = listings_list_each_once
  note o = icon_and_image_outputs(1)
  from ranked_output_up_to_label_order[OF l(1) l(2), of example_lib icon_and_image_page "''https://acme.com''"]
  have "\<exists>out2. extract_logo_output example_lib listing_descending icon_and_image_page ''https://acme.com'' = Inr out2
         \<and> map (\<lambda>(rank, s, url, labels). (rank, s, url, set labels))
               [(1, 20, ''https://acme.com/logo.png'', [''Favicon/Touch Icon'', ''Keyword Match (logo/brand)''])]
             = map (\<lambda>(rank, s, url, labels). (rank, s, url, set labels)) out2"
    unfolding o sum.case by blast
  then show ?thesis using l o by (intro conjI)
qed

text \<open>
  The claim as stated fails: on a page with an icon link and an image of the same
  source, a run that lists the signal set in ascending order and a run that lists it in
  descending order give different outputs.
\<close>

theorem ranked_output_up_to_label_order_counterexample:
  "lists_each_once listing_ascending \<and> lists_each_once listing_descending
   \<and> extract_logo_output example_lib listing_ascending icon_and_image_page ''https://acme.com''
       = Inr [(1, 20, ''https://acme.com/logo.png'', [''Favicon/Touch Icon'', ''Keyword Match (logo/brand)''])]
   \<and> extract_logo_output example_lib listing_descending icon_and_image_page ''https://acme.com''
       = Inr [(1, 20, ''https://acme.com/logo.png'', [''Keyword Match (logo/brand)'', ''Favicon/Touch Icon''])]
   \<and> extract_logo_output example_lib listing_ascending icon_and_image_page ''https://acme.com''
       \<noteq> extract_logo_output example_lib listing_descending icon_and_image_page ''https://acme.com''"
proof -
  note l = listings_list_each_once
  note o = icon_and_image_outputs
  have "extract_logo_output example_lib listing_ascending icon_and_image_page ''https://acme.com''
       \<noteq> extract_logo_output example_lib listing_descending icon_and_image_page ''https://acme.com''"
    unfolding o by simp
  then show ?thesis using l o by (intro conjI)
qed

end
